theory Spec2Isabelle
  imports Main
begin

section \<open>List-of-lists storage of NMatrix (ext/nmatrix/storage/list.cpp)\<close>

text \<open>
  The storage is a tree of sorted singly-linked lists. A \<open>NODE\<close> holds a key, a value
  behind a \<open>void*\<close> and the next node; a \<open>LIST\<close> holds the first node. A list is
  modelled by the sequence of its nodes, a node by the pair of its key and value, and a
  \<open>NODE*\<close> cursor of a read-only traversal by the remaining nodes (\<open>NULL\<close> is \<open>[]\<close>).
  The value behind the \<open>void*\<close> is a scalar of the storage's dtype at recursion depth 0
  and a sublist above it.

  Sizes (\<open>size_t\<close>, \<open>long\<close>) are natural numbers: shapes, offsets and keys of a real
  matrix are far below the word size, and no sum is taken to overflow. The one operation
  that behaves differently on small numbers, the unsigned subtraction, is \<open>size_sub\<close>.
\<close>

datatype 'v VAL = Scalar 'v | Sublist "(nat \<times> 'v VAL) list"

type_synonym 'v NODE = "nat \<times> 'v VAL"
type_synonym 'v LIST = "'v NODE list"
type_synonym addr = nat

abbreviation key :: "'v NODE \<Rightarrow> nat" where
  "key n \<equiv> fst n"

abbreviation val :: "'v NODE \<Rightarrow> 'v VAL" where
  "val n \<equiv> snd n"

text \<open>
  \<open>reinterpret_cast<LIST*>(n->val)\<close> and \<open>*reinterpret_cast<D*>(n->val)\<close>. Reading a
  value at the wrong depth is undefined behaviour in C++; the model leaves it unspecified,
  and the theorems that read values assume lists typed by their depth (\<open>typed\<close> below).
\<close>

fun as_LIST :: "'v VAL \<Rightarrow> 'v LIST" where
  "as_LIST (Sublist l) = l"

fun as_scalar :: "'v VAL \<Rightarrow> 'v" where
  "as_scalar (Scalar v) = v"

definition size_sub :: "nat \<Rightarrow> nat \<Rightarrow> nat" where
  "size_sub a b = (if b \<le> a then a - b else 2 ^ 64 + a - b)"

subsection \<open>The list primitives (util/sl_list.h)\<close>

text \<open>
  Modelled from the spec: the functions of namespace \<open>nm::list\<close> (\<open>create\<close>,
  \<open>find\<close>, \<open>insert\<close>, \<open>insert_copy\<close>, \<open>insert_after\<close>, \<open>replace_insert_after\<close>,
  \<open>insert_helper\<close>, \<open>remove_recursive\<close>) are declared in util/sl_list.h, which is not
  among the sources. They follow section 4.1 of the specification. A pointer to a node
  of a list that is being written is the position of the node in the list.
\<close>

definition list_create :: "'v LIST" where
  "list_create = []"

text \<open>Modelled from the spec: find is a linear scan while key < target; it returns the
  node with exactly that key or none.\<close>

fun list_find :: "'v LIST \<Rightarrow> nat \<Rightarrow> 'v NODE option" where
  "list_find [] k = None"
| "list_find (n # next) k =
     (if key n < k then list_find next k
      else if key n = k then Some n else None)"

text \<open>Modelled from the spec: insert is an in-order insert if the key is absent. When
  the key is present the \<open>replace\<close> flag of the call decides whether the old value is
  replaced or kept. The result is the list and the position of the node with the key.\<close>

fun list_insert :: "'v LIST \<Rightarrow> bool \<Rightarrow> nat \<Rightarrow> 'v VAL \<Rightarrow> 'v LIST \<times> nat" where
  "list_insert [] replace k v = ([(k, v)], 0)"
| "list_insert (n # next) replace k v =
     (if k < key n then ((k, v) # n # next, 0)
      else if k = key n then ((if replace then (k, v) else n) # next, 0)
      else (let (l', i) = list_insert next replace k v in (n # l', Suc i)))"

text \<open>Modelled from the spec: insert_copy inserts a byte-wise copy of the value.\<close>

definition list_insert_copy :: "'v LIST \<Rightarrow> bool \<Rightarrow> nat \<Rightarrow> 'v VAL \<Rightarrow> 'v LIST \<times> nat" where
  "list_insert_copy l replace k v = list_insert l replace k v"

text \<open>Modelled from the spec: insert_after splices a node after a known predecessor.\<close>

definition list_insert_after :: "'v LIST \<Rightarrow> nat \<Rightarrow> nat \<Rightarrow> 'v VAL \<Rightarrow> 'v LIST \<times> nat" where
  "list_insert_after l node k v = (take (Suc node) l @ (k, v) # drop (Suc node) l, Suc node)"

text \<open>Modelled from the spec: replace_insert_after replaces the value of the anchor's
  next node if that node has the key, and splices otherwise.\<close>

definition list_replace_insert_after ::
  "'v LIST \<Rightarrow> nat \<Rightarrow> nat \<Rightarrow> 'v VAL \<Rightarrow> 'v LIST \<times> nat" where
  "list_replace_insert_after l node k v =
     (if Suc node < length l \<and> key (l ! Suc node) = k
      then (l[Suc node := (k, v)], Suc node)
      else list_insert_after l node k v)"

text \<open>Modelled from the spec: insert_helper, as the traversals call it, inserts after
  the cursor when there is one and by an ordinary insert otherwise; the result is the
  new node.\<close>

definition list_insert_helper ::
  "'v LIST \<Rightarrow> nat option \<Rightarrow> nat \<Rightarrow> 'v VAL \<Rightarrow> 'v LIST \<times> nat option" where
  "list_insert_helper l node k v =
     (case node of
        Some i \<Rightarrow> (let (l', j) = list_insert_after l i k v in (l', Some j))
      | None \<Rightarrow> (let (l', j) = list_insert l False k v in (l', Some j)))"

text \<open>Modelled from the spec: remove_recursive descends into every sublist whose key
  lies in the slice range of its axis, deletes the node when the sublist became empty,
  deletes every leaf node in range, and returns whether the list is now empty.\<close>

definition node_is_within_slice :: "'v NODE \<Rightarrow> nat \<Rightarrow> nat \<Rightarrow> bool" where
  "node_is_within_slice n coord len = (coord \<le> key n \<and> key n < coord + len)"

function list_remove_recursive ::
  "'v LIST \<Rightarrow> nat list \<Rightarrow> nat list \<Rightarrow> nat list \<Rightarrow> nat \<Rightarrow> nat \<Rightarrow> 'v LIST \<times> bool" where
  "list_remove_recursive l coords offsets lengths r d =
     (let l' =
        (if d - r > 1 then
           concat (map (\<lambda>n.
             if node_is_within_slice n (offsets ! r + coords ! r) (lengths ! r) then
               (let (sub, remove_parent) =
                      list_remove_recursive (as_LIST (val n)) coords offsets lengths (r + 1) d
                in if remove_parent then [] else [(key n, Sublist sub)])
             else [n]) l)
         else filter (\<lambda>n. \<not> node_is_within_slice n (offsets ! r + coords ! r) (lengths ! r)) l)
      in (l', l' = []))"
  by pat_completeness auto
termination
  by (relation "measure (\<lambda>(l, coords, offsets, lengths, r, d). d - r)") auto

declare list_remove_recursive.simps [simp del]

subsection \<open>Storage handles and the heap\<close>

text \<open>
  \<open>LIST_STORAGE\<close> as the source uses it. \<open>rows\<close>, \<open>default_val\<close> and \<open>src\<close> are
  pointers: a view shares the rows and the default value of its source, and the
  reference count lives in the source. The heap has one table per pointer type; an
  address is the index of an allocation, a freed or never allocated cell reads as
  \<open>None\<close>. The \<open>shape\<close> and \<open>offset\<close> arrays are owned by their handle and held by value.
  \<open>dtype\<close> is the numeric value of the \<open>dtype_t\<close> enumerator.
\<close>

record LIST_STORAGE =
  dtype :: nat
  dim :: nat
  shape :: "nat list"
  offset :: "nat list"
  count :: int
  src :: addr
  rows :: addr
  default_val :: addr

record SLICE =
  coords :: "nat list"
  lengths :: "nat list"
  single :: bool

type_synonym 'a mem = "'a option list"

record 'v heap =
  storages :: "LIST_STORAGE mem"
  lists :: "'v LIST mem"
  vals :: "'v mem"

definition deref :: "'a mem \<Rightarrow> addr \<Rightarrow> 'a option" where
  "deref m a = (if a < length m then m ! a else None)"

definition alloc :: "'a mem \<Rightarrow> 'a \<Rightarrow> addr \<times> 'a mem" where
  "alloc m x = (length m, m @ [Some x])"

definition store :: "'a mem \<Rightarrow> addr \<Rightarrow> 'a \<Rightarrow> 'a mem" where
  "store m a x = m[a := Some x]"

text \<open>\<open>nm_list_storage_create\<close>: the new handle owns the shape and the default value
  it is given; offsets are zero, rows are a new empty list, the count is 1 and the
  handle is its own source.\<close>

definition nm_list_storage_create ::
  "'v heap \<Rightarrow> nat \<Rightarrow> nat list \<Rightarrow> nat \<Rightarrow> addr \<Rightarrow> addr \<times> 'v heap" where
  "nm_list_storage_create h dt shp dm init_val =
     (let s = length (storages h);
          (r, ls) = alloc (lists h) list_create;
          st = \<lparr> dtype = dt, dim = dm, shape = shp, offset = replicate dm 0,
                 count = 1, src = s, rows = r, default_val = init_val \<rparr>
      in (s, h\<lparr> storages := storages h @ [Some st], lists := ls \<rparr>))"

subsection \<open>Accessors\<close>

text \<open>\<open>list_storage_get_single_node\<close>: one \<open>find\<close> per axis, at key
  \<open>offset[r] + coords[r]\<close>; \<open>NULL\<close> as soon as a level misses.\<close>

function get_single_node_loop ::
  "LIST_STORAGE \<Rightarrow> SLICE \<Rightarrow> nat \<Rightarrow> 'v VAL \<Rightarrow> 'v NODE option \<Rightarrow> 'v NODE option" where
  "get_single_node_loop s slice r l n =
     (if r < dim s then
        (case list_find (as_LIST l) (offset s ! r + coords slice ! r) of
           Some n' \<Rightarrow> get_single_node_loop s slice (Suc r) (val n') (Some n')
         | None \<Rightarrow> None)
      else n)"
  by pat_completeness auto
termination
  by (relation "measure (\<lambda>(s, slice, r, l, n). dim s - r)") auto

declare get_single_node_loop.simps [simp del]

definition list_storage_get_single_node ::
  "'v heap \<Rightarrow> LIST_STORAGE \<Rightarrow> SLICE \<Rightarrow> 'v NODE option option" where
  "list_storage_get_single_node h s slice =
     (case deref (lists h) (rows s) of
        None \<Rightarrow> None
      | Some l \<Rightarrow> Some (get_single_node_loop s slice 0 (Sublist l) None))"

text \<open>\<open>slice_copy\<close>. The result of the recursive call is a pointer to the list that
  the call created, so the test \<open>if (val)\<close> is a test of \<open>Some\<close>. The key is an
  \<open>int\<close>: the difference is negative for a node before the slice.\<close>

function slice_copy ::
  "LIST_STORAGE \<Rightarrow> 'v LIST \<Rightarrow> nat list \<Rightarrow> nat list \<Rightarrow> nat \<Rightarrow> 'v LIST option" where
  "slice_copy sr src_rows crds lens n =
     Some (fold (\<lambda>src_node dst_rows.
       (let k = int (key src_node) - int (offset sr ! n + crds ! n) in
        if k \<ge> 0 \<and> nat k < lens ! n then
          (if dim sr - n > 1 then
             (case slice_copy sr (as_LIST (val src_node)) crds lens (n + 1) of
                Some v \<Rightarrow> fst (list_insert_copy dst_rows False (nat k) (Sublist v))
              | None \<Rightarrow> dst_rows)
           else fst (list_insert_copy dst_rows False (nat k) (val src_node)))
        else dst_rows)) src_rows list_create)"
  by pat_completeness auto
termination
  by (relation "measure (\<lambda>(sr, src_rows, crds, lens, n). dim sr - n)") auto

declare slice_copy.simps [simp del]

datatype 'v access = Elem 'v | Storage addr

text \<open>\<open>nm_list_storage_get\<close>: the element for a single slice, a new owning storage
  filled by \<open>slice_copy\<close> otherwise. The result is \<open>None\<close> when a pointer of the handle
  dangles.\<close>

definition nm_list_storage_get ::
  "'v heap \<Rightarrow> addr \<Rightarrow> SLICE \<Rightarrow> ('v access \<times> 'v heap) option" where
  "nm_list_storage_get h storage slice =
     (case deref (storages h) storage of
        None \<Rightarrow> None
      | Some s \<Rightarrow>
         (if single slice then
            (case list_storage_get_single_node h s slice of
               None \<Rightarrow> None
             | Some (Some n) \<Rightarrow> Some (Elem (as_scalar (val n)), h)
             | Some None \<Rightarrow>
                (case deref (vals h) (default_val s) of
                   None \<Rightarrow> None
                 | Some d \<Rightarrow> Some (Elem d, h)))
          else
            (case (deref (vals h) (default_val s), deref (lists h) (rows s)) of
               (Some d, Some l) \<Rightarrow>
                 (let (init_val, vs) = alloc (vals h) d;
                      shp = take (dim s) (lengths slice);
                      (ns, h1) = nm_list_storage_create (h\<lparr> vals := vs \<rparr>) (dtype s) shp (dim s) init_val
                  in (case slice_copy s l (coords slice) (lengths slice) 0 of
                        None \<Rightarrow> None
                      | Some dst \<Rightarrow>
                         (let (r, ls) = alloc (lists h1) dst
                          in (case deref (storages h1) ns of
                                None \<Rightarrow> None
                              | Some nst \<Rightarrow>
                                  Some (Storage ns,
                                        h1\<lparr> storages := store (storages h1) ns (nst\<lparr> rows := r \<rparr>),
                                            lists := ls \<rparr>)))))
             | _ \<Rightarrow> None)))"


text \<open>\<open>nm_list_storage_ref\<close>: the element for a single slice; otherwise a view: a
  new handle whose offsets add the slice's coordinates to those of \<open>s\<close>, whose shape is
  the slice's lengths, and which shares \<open>rows\<close>, \<open>default_val\<close> and \<open>src\<close> with \<open>s\<close>.
  The count of the source is incremented. The view's own \<open>count\<close> is never written by
  the source; it is unspecified here.\<close>

definition nm_list_storage_ref ::
  "'v heap \<Rightarrow> addr \<Rightarrow> SLICE \<Rightarrow> ('v access \<times> 'v heap) option" where
  "nm_list_storage_ref h storage slice =
     (case deref (storages h) storage of
        None \<Rightarrow> None
      | Some s \<Rightarrow>
         (if single slice then
            (case list_storage_get_single_node h s slice of
               None \<Rightarrow> None
             | Some (Some n) \<Rightarrow> Some (Elem (as_scalar (val n)), h)
             | Some None \<Rightarrow>
                (case deref (vals h) (default_val s) of
                   None \<Rightarrow> None
                 | Some d \<Rightarrow> Some (Elem d, h)))
          else
            (let ns = length (storages h);
                 nst = \<lparr> dtype = dtype s, dim = dim s,
                         shape = map (\<lambda>i. lengths slice ! i) [0..<dim s],
                         offset = map (\<lambda>i. coords slice ! i + offset s ! i) [0..<dim s],
                         count = undefined, src = src s, rows = rows s,
                         default_val = default_val s \<rparr>
             in (case deref (storages h) (src s) of
                   None \<Rightarrow> None
                 | Some sr \<Rightarrow>
                     Some (Storage ns,
                           h\<lparr> storages :=
                                store (storages h) (src s) (sr\<lparr> count := count sr + 1 \<rparr>)
                                @ [Some nst] \<rparr>)))))"


subsection \<open>Loops\<close>

text \<open>\<open>for (long index = 0; index < shape; ++index)\<close>, the body acting on the state.\<close>

function for_index :: "nat \<Rightarrow> nat \<Rightarrow> (nat \<Rightarrow> 's \<Rightarrow> 's) \<Rightarrow> 's \<Rightarrow> 's" where
  "for_index index shp body st =
     (if index < shp then for_index (Suc index) shp body (body index st) else st)"
  by pat_completeness auto
termination
  by (relation "measure (\<lambda>(index, shp, body, st). shp - index)") auto

declare for_index.simps [simp del]

text \<open>The start of every traversal of a list at recursion depth \<open>rec\<close>:
  \<open>while (curr && curr->key < offset) curr = curr->next;\<close> and
  \<open>if (curr && curr->key - offset >= shape) curr = NULL;\<close>.\<close>

definition skip_before :: "nat \<Rightarrow> 'v LIST \<Rightarrow> 'v LIST" where
  "skip_before off cur = dropWhile (\<lambda>n. key n < off) cur"

definition null_if_beyond :: "nat \<Rightarrow> nat \<Rightarrow> 'v LIST \<Rightarrow> 'v LIST" where
  "null_if_beyond off shp cur =
     (case cur of [] \<Rightarrow> [] | n # next \<Rightarrow> if size_sub (key n) off \<ge> shp then [] else cur)"

lemma length_null_if_beyond: "length (null_if_beyond off shp cur) \<le> length cur"
  by (simp add: null_if_beyond_def split: list.split)

lemma null_if_beyond_Nil [simp]: "null_if_beyond off shp [] = []"
  by (simp add: null_if_beyond_def)



lemma length_null_if_beyond_tl:
  "cur \<noteq> [] \<Longrightarrow> length (null_if_beyond off shp (tl cur)) < length cur"
  using length_null_if_beyond [of off shp "tl cur"] by (cases cur) auto

text \<open>\<open>while (curr) { body; curr = curr->next;
  if (curr && curr->key - offset >= shape) curr = NULL; }\<close>\<close>

function while_node ::
  "nat \<Rightarrow> nat \<Rightarrow> ('v NODE \<Rightarrow> 's \<Rightarrow> 's) \<Rightarrow> 'v LIST \<Rightarrow> 's \<Rightarrow> 's" where
  "while_node off shp body [] st = st"
| "while_node off shp body (cur # next) st =
     while_node off shp body (null_if_beyond off shp next) (body cur st)"
  by pat_completeness auto
termination
  by (relation "measure (\<lambda>(off, shp, body, cur, st). length cur)")
     (auto simp: le_imp_less_Suc length_null_if_beyond)

subsection \<open>RecurseData\<close>

text \<open>The constructor follows \<open>src\<close> until a storage that is its own source, adding the
  offsets of every storage it leaves. The walk may not end (a cycle of \<open>src\<close> links) or
  may meet a dangling pointer: both are \<open>None\<close>. The record keeps what the traversals
  read through it: the handle \<open>ref\<close>, the handle \<open>actual\<close>, the offsets, the default value
  behind \<open>init\<close>, the default as a host object and the rows of \<open>actual\<close>. Host objects
  made from scalars are the scalars themselves.\<close>

record 'v RecurseData =
  ref :: LIST_STORAGE
  actual :: LIST_STORAGE
  offsets :: "nat list"
  init :: 'v
  init_obj :: 'v
  top_level_list :: "'v LIST"

partial_function (option) walk_src ::
  "LIST_STORAGE mem \<Rightarrow> nat \<Rightarrow> addr \<Rightarrow> nat list \<Rightarrow> (addr \<times> nat list) option" where
  "walk_src m d a offs =
     (case deref m a of
        None \<Rightarrow> None
      | Some st \<Rightarrow>
          if src st \<noteq> a
          then walk_src m d (src st) (map (\<lambda>i. offs ! i + offset st ! i) [0..<d])
          else Some (a, offs))"

declare walk_src.simps [code]

definition RecurseData_new :: "'v heap \<Rightarrow> addr \<Rightarrow> 'v option \<Rightarrow> 'v RecurseData option" where
  "RecurseData_new h s init_arg =
     (case deref (storages h) s of
        None \<Rightarrow> None
      | Some st \<Rightarrow>
         (case walk_src (storages h) (dim st) s (replicate (dim st) 0) of
            None \<Rightarrow> None
          | Some (a, offs) \<Rightarrow>
             (case (deref (storages h) a, deref (vals h) (default_val st)) of
                (Some ast, Some d) \<Rightarrow>
                  (case deref (lists h) (rows ast) of
                     None \<Rightarrow> None
                   | Some l \<Rightarrow>
                       Some \<lparr> ref = st, actual = ast, offsets = offs, init = d,
                              init_obj = (case init_arg of None \<Rightarrow> d | Some v \<Rightarrow> v),
                              top_level_list = l \<rparr>)
              | _ \<Rightarrow> None)))"

definition ref_shape :: "'v RecurseData \<Rightarrow> nat \<Rightarrow> nat" where
  "ref_shape s rec = shape (ref s) ! (dim (ref s) - rec - 1)"

definition actual_shape :: "'v RecurseData \<Rightarrow> nat \<Rightarrow> nat" where
  "actual_shape s rec = shape (actual s) ! (dim (ref s) - rec - 1)"

definition rd_offset :: "'v RecurseData \<Rightarrow> nat \<Rightarrow> nat" where
  "rd_offset s rec = offsets s ! (dim (ref s) - rec - 1)"


subsection \<open>Equality\<close>










subsection \<open>Iteration with indices\<close>

text \<open>The host array \<open>stack\<close> and the block. A host value is a scalar made into an
  object or an index made by \<open>LONG2NUM\<close>. The state of an iteration is the stack and the
  argument lists the block was called with so far, in order; \<open>rb_yield_splat\<close> calls the
  block with the elements of the stack.\<close>

datatype 'v VALUE = Obj 'v | Num nat

type_synonym 'v ruby = "'v VALUE list \<times> 'v VALUE list list"

definition rb_ary_push :: "'v ruby \<Rightarrow> 'v VALUE \<Rightarrow> 'v ruby" where
  "rb_ary_push st x = (fst st @ [x], snd st)"

definition rb_ary_pop :: "'v ruby \<Rightarrow> 'v ruby" where
  "rb_ary_pop st = (butlast (fst st), snd st)"

definition rb_ary_unshift :: "'v ruby \<Rightarrow> 'v VALUE \<Rightarrow> 'v ruby" where
  "rb_ary_unshift st x = (x # fst st, snd st)"

definition rb_ary_shift :: "'v ruby \<Rightarrow> 'v ruby" where
  "rb_ary_shift st = (tl (fst st), snd st)"

definition rb_yield_splat :: "'v ruby \<Rightarrow> 'v ruby" where
  "rb_yield_splat st = (fst st, snd st @ [fst st])"

text \<open>Modelled from the spec: the special host-object tag of the external dtype
  enumeration (types.h is not among the sources). With host objects modelled by the
  scalars, both sides of every test of this tag read the same value.\<close>

definition RUBYOBJ :: nat where
  "RUBYOBJ = 12"

fun each_empty_with_indices_r :: "'v RecurseData \<Rightarrow> nat \<Rightarrow> 'v ruby \<Rightarrow> 'v ruby" where
  "each_empty_with_indices_r s 0 stack =
     (let empty = (if dtype (ref s) = RUBYOBJ then Obj (init s) else Obj (init_obj s));
          stack = rb_ary_unshift stack empty;
          stack = for_index 0 (ref_shape s 0)
                    (\<lambda>index stack.
                       rb_ary_pop (rb_yield_splat (rb_ary_push stack (Num index)))) stack
      in rb_ary_shift stack)"
| "each_empty_with_indices_r s (Suc rec) stack =
     for_index 0 (ref_shape s (Suc rec))
       (\<lambda>index stack.
          rb_ary_pop (each_empty_with_indices_r s rec (rb_ary_push stack (Num index)))) stack"

text \<open>\<open>each_with_indices_r\<close>: the loop state is the cursor and the host state.\<close>

fun each_with_indices_r :: "'v RecurseData \<Rightarrow> 'v LIST \<Rightarrow> nat \<Rightarrow> 'v ruby \<Rightarrow> 'v ruby" where
  "each_with_indices_r s l 0 stack =
     snd (for_index 0 (ref_shape s 0)
       (\<lambda>index (cur, stack).
          (let stack = rb_ary_push stack (Num index) in
           if cur = [] \<or> index < size_sub (key (hd cur)) (rd_offset s 0) then
             (let stack = rb_ary_unshift stack
                            (if dtype (ref s) = RUBYOBJ then Obj (init s) else Obj (init_obj s))
              in (cur, rb_ary_pop (rb_ary_shift (rb_yield_splat stack))))
           else
             (let stack = rb_ary_unshift stack (Obj (as_scalar (val (hd cur))));
                  cur = tl cur
              in (cur, rb_ary_pop (rb_ary_shift (rb_yield_splat stack))))))
       (null_if_beyond (rd_offset s 0) (ref_shape s 0) (skip_before (rd_offset s 0) l), stack))"
| "each_with_indices_r s l (Suc rec) stack =
     snd (for_index 0 (ref_shape s (Suc rec))
       (\<lambda>index (cur, stack).
          (let stack = rb_ary_push stack (Num index) in
           if cur = [] \<or> index < size_sub (key (hd cur)) (rd_offset s (Suc rec)) then
             (cur, rb_ary_pop (each_empty_with_indices_r s rec stack))
           else
             (let stack = each_with_indices_r s (as_LIST (val (hd cur))) rec stack;
                  cur = tl cur
              in (cur, rb_ary_pop stack))))
       (null_if_beyond (rd_offset s (Suc rec)) (ref_shape s (Suc rec))
          (skip_before (rd_offset s (Suc rec)) l), stack))"

fun each_stored_with_indices_r ::
  "'v RecurseData \<Rightarrow> 'v LIST \<Rightarrow> nat \<Rightarrow> 'v ruby \<Rightarrow> 'v ruby" where
  "each_stored_with_indices_r s l 0 stack =
     while_node (rd_offset s 0) (ref_shape s 0)
       (\<lambda>cur stack.
          (let stack = rb_ary_push stack (Num (size_sub (key cur) (rd_offset s 0)));
               stack = rb_ary_unshift stack (Obj (as_scalar (val cur)));
               stack = rb_yield_splat stack;
               stack = rb_ary_shift stack
           in rb_ary_pop stack))
       (null_if_beyond (rd_offset s 0) (ref_shape s 0) (skip_before (rd_offset s 0) l)) stack"
| "each_stored_with_indices_r s l (Suc rec) stack =
     while_node (rd_offset s (Suc rec)) (ref_shape s (Suc rec))
       (\<lambda>cur stack.
          (let stack = rb_ary_push stack (Num (size_sub (key cur) (rd_offset s (Suc rec))));
               stack = each_stored_with_indices_r s (as_LIST (val cur)) rec stack
           in rb_ary_pop stack))
       (null_if_beyond (rd_offset s (Suc rec)) (ref_shape s (Suc rec))
          (skip_before (rd_offset s (Suc rec)) l)) stack"

text \<open>\<open>nm_list_each_with_indices\<close>, called with a block: the calls of the block.\<close>

definition nm_list_each_with_indices ::
  "'v heap \<Rightarrow> addr \<Rightarrow> bool \<Rightarrow> 'v VALUE list list option" where
  "nm_list_each_with_indices h nmatrix stored =
     (case RecurseData_new h nmatrix None of
        None \<Rightarrow> None
      | Some sdata \<Rightarrow>
          Some (snd (if stored
                     then each_stored_with_indices_r sdata (top_level_list sdata)
                            (dim (ref sdata) - 1) ([], [])
                     else each_with_indices_r sdata (top_level_list sdata)
                            (dim (ref sdata) - 1) ([], []))))"

subsection \<open>Merged map\<close>

text \<open>The block is a function \<open>f\<close> of two host values, and \<open>ne\<close> is the method \<open>!=\<close> of
  its results. The list \<open>x\<close> under construction is passed in and returned; \<open>xcur\<close> is a
  node of \<open>x\<close> or \<open>NULL\<close>.\<close>

fun map_empty_stored_r ::
  "('v \<Rightarrow> 'v \<Rightarrow> 'v) \<Rightarrow> ('v \<Rightarrow> 'v \<Rightarrow> bool) \<Rightarrow> 'v RecurseData \<Rightarrow> 'v RecurseData \<Rightarrow>
   'v LIST \<Rightarrow> 'v LIST \<Rightarrow> nat \<Rightarrow> bool \<Rightarrow> 'v \<Rightarrow> 'v LIST" where
  "map_empty_stored_r f ne result s x l 0 rev' t_init =
     fst (while_node (rd_offset result 0) (ref_shape result 0)
       (\<lambda>cur (x, xcur).
          (let s_val = as_scalar (val cur);
               v = (if rev' then f t_init s_val else f s_val t_init)
           in if ne v (init_obj result)
              then list_insert_helper x xcur (size_sub (key cur) (rd_offset result 0)) (Scalar v)
              else (x, xcur)))
       (null_if_beyond (rd_offset result 0) (ref_shape result 0)
          (skip_before (rd_offset result 0) l))
       (x, None))"
| "map_empty_stored_r f ne result s x l (Suc rec) rev' t_init =
     fst (while_node (rd_offset result (Suc rec)) (ref_shape result (Suc rec))
       (\<lambda>cur (x, xcur).
          (let v = map_empty_stored_r f ne result s list_create (as_LIST (val cur)) rec rev' t_init
           in if v = [] then (x, xcur)
              else (fst (list_insert_helper x xcur
                           (size_sub (key cur) (rd_offset result (Suc rec))) (Sublist v)), xcur)))
       (null_if_beyond (rd_offset result (Suc rec)) (ref_shape result (Suc rec))
          (skip_before (rd_offset result (Suc rec)) l))
       (x, None))"

text \<open>The loop of \<open>map_merged_stored_r\<close> over both cursors, at depth \<open>rec\<close>: the side
  with the smaller reference index takes the step, or both; both cursors are tested
  against the shape of the result after every step.\<close>

function while_merged ::
  "nat \<Rightarrow> nat \<Rightarrow> nat \<Rightarrow> ('v NODE \<Rightarrow> 's \<Rightarrow> 's) \<Rightarrow> ('v NODE \<Rightarrow> 's \<Rightarrow> 's) \<Rightarrow>
   ('v NODE \<Rightarrow> 'v NODE \<Rightarrow> 's \<Rightarrow> 's) \<Rightarrow> 'v LIST \<Rightarrow> 'v LIST \<Rightarrow> 's \<Rightarrow> 's" where
  "while_merged loff roff shp left_only right_only both lcur rcur st =
     (if lcur \<noteq> [] \<or> rcur \<noteq> [] then
        (if rcur = [] \<or> (lcur \<noteq> [] \<and> size_sub (key (hd lcur)) loff < size_sub (key (hd rcur)) roff)
         then
           while_merged loff roff shp left_only right_only both
             (null_if_beyond loff shp (tl lcur)) (null_if_beyond roff shp rcur)
             (left_only (hd lcur) st)
         else if lcur = [] \<or> (rcur \<noteq> [] \<and> size_sub (key (hd rcur)) roff < size_sub (key (hd lcur)) loff)
         then
           while_merged loff roff shp left_only right_only both
             (null_if_beyond loff shp lcur) (null_if_beyond roff shp (tl rcur))
             (right_only (hd rcur) st)
         else
           while_merged loff roff shp left_only right_only both
             (null_if_beyond loff shp (tl lcur)) (null_if_beyond roff shp (tl rcur))
             (both (hd lcur) (hd rcur) st))
      else st)"
  by pat_completeness auto
termination
  by (relation "measure (\<lambda>(loff, roff, shp, lo, ro, both, lcur, rcur, st).
                  length lcur + length rcur)")
     (auto intro: add_less_le_mono add_le_less_mono add_less_mono
           simp: length_null_if_beyond length_null_if_beyond_tl)

declare while_merged.simps [simp del]

fun map_merged_stored_r ::
  "('v \<Rightarrow> 'v \<Rightarrow> 'v) \<Rightarrow> ('v \<Rightarrow> 'v \<Rightarrow> bool) \<Rightarrow> 'v RecurseData \<Rightarrow> 'v RecurseData \<Rightarrow>
   'v RecurseData \<Rightarrow> 'v LIST \<Rightarrow> 'v LIST \<Rightarrow> 'v LIST \<Rightarrow> nat \<Rightarrow> 'v LIST" where
  "map_merged_stored_r f ne result left right x l r 0 =
     fst (while_merged (rd_offset left 0) (rd_offset right 0) (ref_shape result 0)
       (\<lambda>lcur (x, xcur).
          (let v = f (as_scalar (val lcur)) (init_obj right)
           in if ne v (init_obj result)
              then list_insert_helper x xcur (size_sub (key lcur) (rd_offset left 0)) (Scalar v)
              else (x, xcur)))
       (\<lambda>rcur (x, xcur).
          (let v = f (init_obj left) (as_scalar (val rcur))
           in if ne v (init_obj result)
              then list_insert_helper x xcur (size_sub (key rcur) (rd_offset right 0)) (Scalar v)
              else (x, xcur)))
       (\<lambda>lcur rcur (x, xcur).
          (let v = f (as_scalar (val lcur)) (as_scalar (val rcur))
           in if ne v (init_obj result)
              then list_insert_helper x xcur (size_sub (key lcur) (rd_offset left 0)) (Scalar v)
              else (x, xcur)))
       (null_if_beyond (rd_offset left 0) (ref_shape result 0) (skip_before (rd_offset left 0) l))
       (null_if_beyond (rd_offset right 0) (ref_shape result 0) (skip_before (rd_offset right 0) r))
       (x, if x = [] then None else Some 0))"
| "map_merged_stored_r f ne result left right x l r (Suc rec) =
     fst (while_merged (rd_offset left (Suc rec)) (rd_offset right (Suc rec))
            (ref_shape result (Suc rec))
       (\<lambda>lcur (x, xcur).
          (let v = map_empty_stored_r f ne result left list_create (as_LIST (val lcur)) rec
                     False (init_obj right)
           in if v = [] then (x, xcur)
              else list_insert_helper x xcur
                     (size_sub (key lcur) (rd_offset left (Suc rec))) (Sublist v)))
       (\<lambda>rcur (x, xcur).
          (let v = map_empty_stored_r f ne result right list_create (as_LIST (val rcur)) rec
                     True (init_obj left)
           in if v = [] then (x, xcur)
              else list_insert_helper x xcur
                     (size_sub (key rcur) (rd_offset right (Suc rec))) (Sublist v)))
       (\<lambda>lcur rcur (x, xcur).
          (let v = map_merged_stored_r f ne result left right list_create
                     (as_LIST (val lcur)) (as_LIST (val rcur)) rec
           in if v = [] then (x, xcur)
              else list_insert_helper x xcur
                     (size_sub (key lcur) (rd_offset left (Suc rec))) (Sublist v)))
       (null_if_beyond (rd_offset left (Suc rec)) (ref_shape result (Suc rec))
          (skip_before (rd_offset left (Suc rec)) l))
       (null_if_beyond (rd_offset right (Suc rec)) (ref_shape result (Suc rec))
          (skip_before (rd_offset right (Suc rec)) r))
       (x, if x = [] then None else Some 0))"


subsection \<open>Writing\<close>

text \<open>\<open>slice_set_single\<close>: \<open>node\<close> is the node written last at this level, or \<open>NULL\<close>.
  Above the leaves every key of the slice gets a sublist (a new one unless the key is
  there), and the recursion writes into it; at the leaves every key gets a copy of the
  value.\<close>

function slice_set_single ::
  "LIST_STORAGE \<Rightarrow> 'v LIST \<Rightarrow> 'v \<Rightarrow> nat list \<Rightarrow> nat list \<Rightarrow> nat \<Rightarrow> 'v LIST" where
  "slice_set_single dest l v crds lens n =
     (if dim dest - n > 1 then
        fst (for_index 0 (lens ! n)
          (\<lambda>i (l, node).
             (let k = i + offset dest ! n + crds ! n;
                  (l, nd) =
                    (case node of
                       None \<Rightarrow> list_insert l False k (Sublist list_create)
                     | Some p \<Rightarrow>
                         if \<not> Suc p < length l \<or> (Suc p < length l \<and> key (l ! Suc p) > k)
                         then list_insert_after l p k (Sublist list_create)
                         else (l, Suc p));
                  sub = slice_set_single dest (as_LIST (val (l ! nd))) v crds lens (n + 1)
              in (l[nd := (key (l ! nd), Sublist sub)], Some nd)))
          (l, None))
      else
        fst (for_index 0 (lens ! n)
          (\<lambda>i (l, node).
             (let k = i + offset dest ! n + crds ! n;
                  (l, nd) =
                    (case node of
                       None \<Rightarrow> list_insert_copy l True k (Scalar v)
                     | Some p \<Rightarrow> list_replace_insert_after l p k (Scalar v))
              in (l, Some nd)))
          (l, None)))"
  by pat_completeness auto
termination
  by (relation "measure (\<lambda>(dest, l, v, crds, lens, n). dim dest - n)") auto

declare slice_set_single.simps [simp del]

text \<open>The right-hand side of an assignment, as \<open>nm_list_storage_set\<close> tells it apart:
  a \<open>T_DATA\<close> object freed by \<open>nm_delete\<close> or \<open>nm_delete_ref\<close> (a matrix or a
  reference to one), another \<open>T_DATA\<close> object, or a value that \<open>rubyobj_to_cval\<close>
  converts to a scalar of the storage's dtype (the conversion is external: the scalar is
  given converted).\<close>

datatype 'v rhs = Data_nm_delete | Data_nm_delete_ref | Data_other | Converts 'v

datatype error = NotImpError | TypeError

text \<open>\<open>std::memcmp(a, b, n) == 0\<close> on the bytes of two scalars; \<open>None\<close> when \<open>n\<close>
  bytes are more than a scalar has (a read past the allocation).\<close>

definition memcmp_eq :: "nat list \<Rightarrow> nat list \<Rightarrow> nat \<Rightarrow> bool option" where
  "memcmp_eq a b n =
     (if n \<le> length a \<and> n \<le> length b then Some (take n a = take n b) else None)"

text \<open>\<open>nm_list_storage_set\<close>. \<open>bytes\<close> gives the object representation of a scalar.
  The result is the heap when the function is left and the exception it raised, if any;
  \<open>None\<close> when a pointer dangles or \<open>memcmp\<close> reads past a scalar. The number of
  bytes compared is \<open>s->dtype\<close>.\<close>

definition nm_list_storage_set ::
  "('v \<Rightarrow> nat list) \<Rightarrow> 'v heap \<Rightarrow> addr \<Rightarrow> SLICE \<Rightarrow> 'v rhs \<Rightarrow> ('v heap \<times> error option) option" where
  "nm_list_storage_set bytes h left slice right =
     (case right of
        Data_nm_delete \<Rightarrow> Some (h, Some NotImpError)
      | Data_nm_delete_ref \<Rightarrow> Some (h, Some NotImpError)
      | Data_other \<Rightarrow> Some (h, Some TypeError)
      | Converts v \<Rightarrow>
         (case deref (storages h) left of
            None \<Rightarrow> None
          | Some s \<Rightarrow>
             (case (deref (vals h) (default_val s), deref (lists h) (rows s)) of
                (Some d, Some l) \<Rightarrow>
                  (case memcmp_eq (bytes v) (bytes d) (dtype s) of
                     None \<Rightarrow> None
                   | Some remove \<Rightarrow>
                      if remove then
                        Some (h\<lparr> lists := store (lists h) (rows s)
                                   (fst (list_remove_recursive l (coords slice) (offset s)
                                           (lengths slice) 0 (dim s))) \<rparr>, None)
                      else
                        Some (h\<lparr> lists := store (lists h) (rows s)
                                   (slice_set_single s l v (coords slice) (lengths slice) 0) \<rparr>,
                              None))
              | _ \<Rightarrow> None)))"

text \<open>\<open>nm_list_storage_remove\<close>: the result of \<open>remove_recursive\<close> (whether the rows
  are now empty) is ignored; the list behind \<open>s->rows\<close> is written in place.\<close>

definition nm_list_storage_remove :: "'v heap \<Rightarrow> addr \<Rightarrow> SLICE \<Rightarrow> 'v heap option" where
  "nm_list_storage_remove h storage slice =
     (case deref (storages h) storage of
        None \<Rightarrow> None
      | Some s \<Rightarrow>
         (case deref (lists h) (rows s) of
            None \<Rightarrow> None
          | Some l \<Rightarrow>
             Some (h\<lparr> lists := store (lists h) (rows s)
                        (fst (list_remove_recursive l (coords slice) (offset s)
                                (lengths slice) 0 (dim s))) \<rparr>)))"


subsection \<open>Well-formed lists\<close>


text \<open>The two invariants of the rows of a storage, at recursion depth \<open>rec\<close>: a leaf
  holds a scalar for which \<open>stored\<close> holds (it differs from the default), and a node
  above the leaves owns a sublist that is not empty and satisfies the invariants at the
  depth below.\<close>

fun pruned :: "('v \<Rightarrow> bool) \<Rightarrow> nat \<Rightarrow> 'v LIST \<Rightarrow> bool" where
  "pruned stored 0 l =
     list_all (\<lambda>n. case val n of Scalar v \<Rightarrow> stored v | Sublist sub \<Rightarrow> False) l"
| "pruned stored (Suc rec) l =
     list_all (\<lambda>n. case val n of Scalar v \<Rightarrow> False
                    | Sublist sub \<Rightarrow> sub \<noteq> [] \<and> pruned stored rec sub) l"

text \<open>The lists of a storage at recursion depth \<open>rec\<close>: keys strictly increasing, a
  scalar behind every leaf node and a list of the depth below behind every other node.\<close>

fun list_inv :: "nat \<Rightarrow> 'v LIST \<Rightarrow> bool" where
  "list_inv 0 l =
     (sorted_wrt (<) (map key l) \<and>
      list_all (\<lambda>n. case val n of Scalar v \<Rightarrow> True | Sublist sub \<Rightarrow> False) l)"
| "list_inv (Suc rec) l =
     (sorted_wrt (<) (map key l) \<and>
      list_all (\<lambda>n. case val n of Scalar v \<Rightarrow> False | Sublist sub \<Rightarrow> list_inv rec sub) l)"

text \<open>All index tuples of a shape, the first axis slowest: \<open>indices [2, 2]\<close> is
  \<open>[[0,0], [0,1], [1,0], [1,1]]\<close>.\<close>

definition indices :: "nat list \<Rightarrow> nat list list" where
  "indices shp = product_lists (map (\<lambda>n. [0..<n]) shp)"

text \<open>The lexicographic order of index tuples.\<close>

definition lex_less :: "nat list \<Rightarrow> nat list \<Rightarrow> bool" where
  "lex_less a b = ((a, b) \<in> lexord {(x, y). x < y})"

text \<open>The node reached by one \<open>find\<close> per key, as \<open>list_storage_get_single_node\<close>
  walks; none as soon as a level misses.\<close>

fun find_path :: "'v LIST \<Rightarrow> nat list \<Rightarrow> 'v NODE option" where
  "find_path l [] = None"
| "find_path l (k # ks) =
     (case list_find l k of
        None \<Rightarrow> None
      | Some n \<Rightarrow> if ks = [] then Some n else find_path (as_LIST (val n)) ks)"

text \<open>The element behind the result of such a walk: the value of the node found, the
  default otherwise.\<close>

definition elem :: "'v \<Rightarrow> 'v NODE option \<Rightarrow> 'v" where
  "elem d no = (case no of None \<Rightarrow> d | Some n \<Rightarrow> as_scalar (val n))"

text \<open>The common shape of the bodies of the two loops of \<open>each_with_indices_r\<close>: the
  index is before the cursor's reference index (or the cursor is \<open>NULL\<close>), or it is at
  the cursor, which then moves on.\<close>

definition dense_step ::
  "nat \<Rightarrow> (nat \<Rightarrow> 's \<Rightarrow> 's) \<Rightarrow> (nat \<Rightarrow> 'v NODE \<Rightarrow> 's \<Rightarrow> 's) \<Rightarrow> nat \<Rightarrow> 'v LIST \<times> 's \<Rightarrow> 'v LIST \<times> 's" where
  "dense_step off A B index cst =
     (if fst cst = [] \<or> index < size_sub (key (hd (fst cst))) off
      then (fst cst, A index (snd cst))
      else (tl (fst cst), B index (hd (fst cst)) (snd cst)))"

text \<open>The extents and the offsets of the axes at depths \<open>rec, ..., 0\<close>.\<close>

definition view_shape :: "'v RecurseData \<Rightarrow> nat \<Rightarrow> nat list" where
  "view_shape s rec = map (ref_shape s) (rev [0..<Suc rec])"

definition view_offsets :: "'v RecurseData \<Rightarrow> nat \<Rightarrow> nat list" where
  "view_offsets s rec = map (rd_offset s) (rev [0..<Suc rec])"

text \<open>The cursor with which every traversal of a list starts.\<close>

definition start_cursor :: "nat \<Rightarrow> nat \<Rightarrow> 'v LIST \<Rightarrow> 'v LIST" where
  "start_cursor off shp l = null_if_beyond off shp (skip_before off l)"

text \<open>The single slice of one index tuple, the element that \<open>ref\<close> returns for it,
  and the storages the theorems about whole storages are stated for: the handle is
  allocated with \<open>dim\<close> at least 1 and \<open>shape\<close> and \<open>offset\<close> of that length; its
  source is allocated and is its own source; the handle shares the rows of its source;
  an owner has zero offsets (as \<open>create\<close> makes them); the rows are allocated and
  well-formed at depth \<open>dim - 1\<close>; the default value is allocated. These hold of every
  storage made by \<open>create\<close> and written by \<open>set\<close>, and of every view made by \<open>ref\<close> of
  one.\<close>

definition point :: "nat list \<Rightarrow> SLICE" where
  "point idx = \<lparr> coords = idx, lengths = replicate (length idx) 1, single = True \<rparr>"

definition element :: "'v heap \<Rightarrow> addr \<Rightarrow> nat list \<Rightarrow> 'v option" where
  "element h a idx =
     (case nm_list_storage_ref h a (point idx) of
        Some (Elem v, h') \<Rightarrow> Some v
      | _ \<Rightarrow> None)"

definition valid_storage :: "'v heap \<Rightarrow> addr \<Rightarrow> bool" where
  "valid_storage h a =
     (case deref (storages h) a of
        None \<Rightarrow> False
      | Some st \<Rightarrow>
          1 \<le> dim st \<and> length (shape st) = dim st \<and> length (offset st) = dim st \<and>
          (if src st = a then offset st = replicate (dim st) 0 else True) \<and>
          deref (vals h) (default_val st) \<noteq> None \<and>
          (case deref (storages h) (src st) of
             None \<Rightarrow> False
           | Some sr \<Rightarrow>
               src sr = src st \<and> rows sr = rows st \<and>
               (case deref (lists h) (rows st) of
                  None \<Rightarrow> False
                | Some l \<Rightarrow> list_inv (dim st - 1) l)))"



section \<open>Example states\<close>

text \<open>A 4 x 4 owner at address 0 with \<open>(2,2) = 7\<close> and default 0, and a 3 x 3 view of it
  at address 1 with offsets \<open>(1,1)\<close>.\<close>

definition st_owner :: LIST_STORAGE where
  "st_owner = \<lparr> dtype = 3, dim = 2, shape = [4, 4], offset = [0, 0], count = 2,
                src = 0, rows = 0, default_val = 0 \<rparr>"

definition st_view :: LIST_STORAGE where
  "st_view = \<lparr> dtype = 3, dim = 2, shape = [3, 3], offset = [1, 1], count = 0,
               src = 0, rows = 0, default_val = 0 \<rparr>"

definition h_view :: "nat heap" where
  "h_view = \<lparr> storages = [Some st_owner, Some st_view],
              lists = [Some [(2, Sublist [(2, Scalar 7)])]], vals = [Some 0] \<rparr>"

definition sl_22 :: SLICE where
  "sl_22 = \<lparr> coords = [1, 1], lengths = [2, 2], single = False \<rparr>"

text \<open>A 3 x 3 storage with \<open>(0,0) = (0,1) = (1,0) = 9\<close> and default 0, and the slice of
  its upper left 2 x 2 corner.\<close>

definition st_s4 :: LIST_STORAGE where
  "st_s4 = \<lparr> dtype = 3, dim = 2, shape = [3, 3], offset = [0, 0], count = 1,
             src = 0, rows = 0, default_val = 0 \<rparr>"

definition rows_s4 :: "nat LIST" where
  "rows_s4 = [(0, Sublist [(0, Scalar 9), (1, Scalar 9)]), (1, Sublist [(0, Scalar 9)])]"

definition h_s4 :: "nat heap" where
  "h_s4 = \<lparr> storages = [Some st_s4], lists = [Some rows_s4], vals = [Some 0] \<rparr>"

definition sl_s4 :: SLICE where
  "sl_s4 = \<lparr> coords = [0, 0], lengths = [2, 2], single = False \<rparr>"




text \<open>A vector of three bytes (dtype 0, one byte per element) with default 0 and
  \<open>(1) = 5\<close>, and the slice of its element 1.\<close>

definition st_byte :: LIST_STORAGE where
  "st_byte = \<lparr> dtype = 0, dim = 1, shape = [3], offset = [0], count = 1,
               src = 0, rows = 0, default_val = 0 \<rparr>"

definition h_byte :: "nat heap" where
  "h_byte = \<lparr> storages = [Some st_byte], lists = [Some [(1, Scalar 5)]], vals = [Some 0] \<rparr>"

definition sl_1 :: SLICE where
  "sl_1 = \<lparr> coords = [1], lengths = [1], single = True \<rparr>"

text \<open>A 2 x 3 storage with \<open>(0,0) = 9\<close> and default 0, and the slice of the columns 1
  and 2 of its row 0.\<close>

definition st_23 :: LIST_STORAGE where
  "st_23 = \<lparr> dtype = 3, dim = 2, shape = [2, 3], offset = [0, 0], count = 1,
             src = 0, rows = 0, default_val = 0 \<rparr>"

definition h_23 :: "nat heap" where
  "h_23 = \<lparr> storages = [Some st_23], lists = [Some [(0, Sublist [(0, Scalar 9)])]],
            vals = [Some 0] \<rparr>"

definition sl_12 :: SLICE where
  "sl_12 = \<lparr> coords = [0, 1], lengths = [1, 2], single = False \<rparr>"

text \<open>A vector of length 3 with default 5 and \<open>(1) = 9\<close>.\<close>

definition st_s6 :: LIST_STORAGE where
  "st_s6 = \<lparr> dtype = 3, dim = 1, shape = [3], offset = [0], count = 1,
             src = 0, rows = 0, default_val = 0 \<rparr>"

definition h_s6 :: "nat heap" where
  "h_s6 = \<lparr> storages = [Some st_s6], lists = [Some [(1, Scalar 9)]], vals = [Some 5] \<rparr>"

section \<open>The heap\<close>

lemma deref_append:
  "deref (m @ [x]) a = (if a < length m then deref m a else if a = length m then x else None)"
  by (simp add: deref_def nth_append)

lemma deref_store:
  "deref (store m a x) b = (if b = a \<and> a < length m then Some x else deref m b)"
  by (simp add: deref_def store_def)

lemma deref_Some_less: "deref m a = Some x \<Longrightarrow> a < length m"
  by (simp add: deref_def split: if_splits)

lemma deref_beyond: "\<not> a < length m \<Longrightarrow> deref m a = None"
  by (simp add: deref_def)

lemma length_store [simp]: "length (store m a x) = length m"
  by (simp add: store_def)

section \<open>Views\<close>

text \<open>
  Claim C4. For a storage \<open>s\<close> whose source is allocated and a slice that is not single,
  \<open>ref\<close> returns a new handle \<open>v\<close> with \<open>v.offset[i] = s.offset[i] + coords[i]\<close> and
  \<open>v.shape[i] = lengths[i]\<close> on every axis, with the rows, the default value and the
  source of \<open>s\<close>; the count of that source is one more than before, every other handle
  is as before, and no list and no value is touched.
\<close>

theorem ref_view:
  assumes "deref (storages h) s = Some st"
      and "deref (storages h) (src st) = Some sr"
      and "\<not> single slice"
  shows "\<exists>h' v. nm_list_storage_ref h s slice = Some (Storage (length (storages h)), h') \<and>
           deref (storages h') (length (storages h)) = Some v \<and>
           dim v = dim st \<and> length (offset v) = dim st \<and> length (shape v) = dim st \<and>
           (\<forall>i<dim st. offset v ! i = offset st ! i + coords slice ! i \<and>
                        shape v ! i = lengths slice ! i) \<and>
           rows v = rows st \<and> default_val v = default_val st \<and> src v = src st \<and>
           deref (storages h') (src st) = Some (sr\<lparr> count := count sr + 1 \<rparr>) \<and>
           (\<forall>a. a \<noteq> src st \<and> a \<noteq> length (storages h) \<longrightarrow>
                deref (storages h') a = deref (storages h) a) \<and>
           lists h' = lists h \<and> vals h' = vals h"
proof -
  have lt: "src st < length (storages h)"
    using assms(2) by (rule deref_Some_less)
  show ?thesis
    using assms lt
    by (simp add: nm_list_storage_ref_def Let_def deref_append deref_store deref_beyond)
qed

theorem ref_view_witness:
  "deref (storages h_view) 1 = Some st_view \<and>
   deref (storages h_view) (src st_view) = Some st_owner \<and> \<not> single sl_22 \<and>
   (\<exists>h' v. nm_list_storage_ref h_view 1 sl_22 = Some (Storage 2, h') \<and>
      deref (storages h') 2 = Some v \<and>
      offset v ! 0 = 2 \<and> offset v ! 1 = 2 \<and> shape v ! 0 = 2 \<and> shape v ! 1 = 2 \<and>
      rows v = 0 \<and> default_val v = 0 \<and> src v = 0 \<and>
      deref (storages h') 0 = Some (st_owner\<lparr> count := 3 \<rparr>))"
proof -
  have a: "deref (storages h_view) 1 = Some st_view"
    by (simp add: h_view_def deref_def)
  have b: "deref (storages h_view) (src st_view) = Some st_owner"
    by (simp add: h_view_def deref_def st_view_def)
  have c: "\<not> single sl_22"
    by (simp add: sl_22_def)
  from ref_view [OF a b c] obtain h' v where
    r: "nm_list_storage_ref h_view 1 sl_22 = Some (Storage (length (storages h_view)), h')"
    and v: "deref (storages h') (length (storages h_view)) = Some v"
    and ax: "\<forall>i<dim st_view. offset v ! i = offset st_view ! i + coords sl_22 ! i \<and>
                       shape v ! i = lengths sl_22 ! i"
    and sh: "rows v = rows st_view" "default_val v = default_val st_view" "src v = src st_view"
    and cn: "deref (storages h') (src st_view) = Some (st_owner\<lparr> count := count st_owner + 1 \<rparr>)"
    by blast
  have len: "length (storages h_view) = 2"
    by (simp add: h_view_def)
  have "offset v ! 0 = 2 \<and> shape v ! 0 = 2" "offset v ! 1 = 2 \<and> shape v ! 1 = 2"
    using ax [rule_format, of 0] ax [rule_format, of 1]
    by (simp_all add: st_view_def sl_22_def)
  moreover have "rows v = 0" "default_val v = 0" "src v = 0"
    using sh by (simp_all add: st_view_def)
  moreover have "deref (storages h') 0 = Some (st_owner\<lparr> count := 3 \<rparr>)"
    using cn by (simp add: st_view_def st_owner_def)
  ultimately show ?thesis
    using a b c r v len by auto
qed

text \<open>
  Claim C9. When the source of \<open>s\<close> is its own source, the view that \<open>ref\<close> builds from
  \<open>s\<close> points at that same terminal owner, whether \<open>s\<close> is the owner or a view: the walk
  of \<open>RecurseData\<close> from the new view ends after one step, at \<open>s.src\<close>, with the offsets
  of the new view, which are the sums \<open>coords[i] + s.offset[i]\<close>. The new view satisfies
  the assumption again, and \<open>ref\<close> changes the \<open>src\<close> of no handle, so the property holds
  of every view built by \<open>ref\<close> from storages made by \<open>create\<close> (whose \<open>src\<close> is the handle
  itself, by definition of \<open>nm_list_storage_create\<close>).
\<close>

theorem ref_resolves_in_one_hop:
  assumes "deref (storages h) s = Some st"
      and "deref (storages h) (src st) = Some sr"
      and "src sr = src st"
      and "\<not> single slice"
  shows "\<exists>h' v sr'. nm_list_storage_ref h s slice = Some (Storage (length (storages h)), h') \<and>
           deref (storages h') (length (storages h)) = Some v \<and>
           src v = src st \<and> dim v = dim st \<and>
           deref (storages h') (src v) = Some sr' \<and> src sr' = src v \<and>
           offset v = map (\<lambda>i. coords slice ! i + offset st ! i) [0..<dim st] \<and>
           walk_src (storages h') (dim v) (length (storages h)) (replicate (dim v) 0)
             = Some (src st, offset v) \<and>
           (\<forall>a x. deref (storages h) a = Some x \<longrightarrow>
                  (\<exists>x'. deref (storages h') a = Some x' \<and> src x' = src x))"
proof -
  let ?ns = "length (storages h)"
  let ?v = "\<lparr> dtype = dtype st, dim = dim st,
              shape = map (\<lambda>i. lengths slice ! i) [0..<dim st],
              offset = map (\<lambda>i. coords slice ! i + offset st ! i) [0..<dim st],
              count = undefined, src = src st, rows = rows st,
              default_val = default_val st \<rparr>"
  let ?sr' = "sr\<lparr> count := count sr + 1 \<rparr>"
  let ?m' = "store (storages h) (src st) ?sr' @ [Some ?v]"
  have lt: "src st < ?ns"
    using assms(2) by (rule deref_Some_less)
  have r: "nm_list_storage_ref h s slice = Some (Storage ?ns, h\<lparr> storages := ?m' \<rparr>)"
    using assms by (simp add: nm_list_storage_ref_def Let_def)
  have dv: "deref ?m' ?ns = Some ?v"
    by (simp add: deref_append)
  have ds: "deref ?m' (src st) = Some ?sr'"
    using lt by (simp add: deref_append deref_store)
  have offs: "map (\<lambda>i. replicate (dim st) 0 ! i +
                 map (\<lambda>i. coords slice ! i + offset st ! i) [0..<dim st] ! i) [0..<dim st]
              = map (\<lambda>i. coords slice ! i + offset st ! i) [0..<dim st]"
    by (simp add: list_eq_iff_nth_eq)
  have w2: "walk_src ?m' (dim st) (src st) (offset ?v) = Some (src st, offset ?v)"
    using ds assms(3) by (subst walk_src.simps) simp
  have w: "walk_src ?m' (dim ?v) ?ns (replicate (dim ?v) 0) = Some (src st, offset ?v)"
    using dv lt w2 by (subst walk_src.simps) (simp add: offs)
  have others: "\<forall>a x. deref (storages h) a = Some x \<longrightarrow>
                  (\<exists>x'. deref ?m' a = Some x' \<and> src x' = src x)"
    using assms(2) by (auto simp: deref_append deref_store deref_beyond dest: deref_Some_less)
  show ?thesis
    using r dv ds w others assms(3) by simp
qed

theorem ref_resolves_in_one_hop_witness:
  "deref (storages h_view) 1 = Some st_view \<and>
   deref (storages h_view) (src st_view) = Some st_owner \<and>
   src st_owner = src st_view \<and> \<not> single sl_22 \<and>
   (\<exists>h' v. nm_list_storage_ref h_view 1 sl_22 = Some (Storage 2, h') \<and>
      deref (storages h') 2 = Some v \<and> src v = 0 \<and> offset v = [2, 2] \<and>
      walk_src (storages h') 2 2 [0, 0] = Some (0, [2, 2]))"
proof -
  have a: "deref (storages h_view) 1 = Some st_view"
    by (simp add: h_view_def deref_def)
  have b: "deref (storages h_view) (src st_view) = Some st_owner"
    by (simp add: h_view_def deref_def st_view_def)
  have c: "src st_owner = src st_view"
    by (simp add: st_owner_def st_view_def)
  have d: "\<not> single sl_22"
    by (simp add: sl_22_def)
  from ref_resolves_in_one_hop [OF a b c d] obtain h' v where
    r: "nm_list_storage_ref h_view 1 sl_22 = Some (Storage (length (storages h_view)), h')"
    and v: "deref (storages h') (length (storages h_view)) = Some v"
    and sv: "src v = src st_view" and dv: "dim v = dim st_view"
    and ov: "offset v = map (\<lambda>i. coords sl_22 ! i + offset st_view ! i) [0..<dim st_view]"
    and w: "walk_src (storages h') (dim v) (length (storages h_view)) (replicate (dim v) 0)
       = Some (src st_view, offset v)"
    by blast
  have len: "length (storages h_view) = 2"
    by (simp add: h_view_def)
  have up: "[0..<2] = [0, 1]" "replicate 2 (0::nat) = [0, 0]"
    by (simp_all add: upt_rec numeral_2_eq_2)
  have ov': "offset v = [2, 2]"
    using ov by (simp add: st_view_def sl_22_def up)
  have "walk_src (storages h') 2 2 [0, 0] = Some (0, [2, 2])"
    using w by (simp add: dv len up ov' st_view_def)
  then show ?thesis
    using a b c d r v sv ov' len by (auto simp: st_view_def)
qed

section \<open>Assignment and removal\<close>

text \<open>
  Claim C8. When the right-hand side of \<open>set\<close> is a matrix (a \<open>T_DATA\<close> object freed by
  \<open>nm_delete\<close> or by \<open>nm_delete_ref\<close>), \<open>set\<close> raises \<open>NotImpError\<close> and the heap is the
  one it was called with: nothing is written and nothing is removed.
\<close>

theorem set_from_matrix_not_implemented:
  "nm_list_storage_set bytes h left slice Data_nm_delete = Some (h, Some NotImpError) \<and>
   nm_list_storage_set bytes h left slice Data_nm_delete_ref = Some (h, Some NotImpError)"
  by (simp add: nm_list_storage_set_def)

lemma set_remove_recursive_outside:
  assumes "n \<in> set l"
      and "\<not> node_is_within_slice n (offs ! r + crds ! r) (lens ! r)"
  shows "n \<in> set (fst (list_remove_recursive l crds offs lens r d))"
  using assms by (subst list_remove_recursive.simps) (auto simp: Let_def)

lemma remove_recursive_s4:
  "list_remove_recursive rows_s4 [0, 0] [0, 0] [2, 2] 0 2 = ([], True)"
  by (simp add: list_remove_recursive.simps rows_s4_def node_is_within_slice_def)

text \<open>
  Claim C10. \<open>remove\<close> on a storage whose rows are allocated changes no handle (so
  \<open>s->rows\<close> is the same list object), frees no list and allocates none; the list behind
  \<open>s->rows\<close> holds what \<open>remove_recursive\<close> left of it, also when that is nothing; every
  other list and every value is untouched; and a node of the rows whose key is outside
  the slice's range on the first axis is still a node of the rows.
\<close>

theorem remove_keeps_rows_object:
  assumes "deref (storages h) s = Some st"
      and "deref (lists h) (rows st) = Some l"
  shows "\<exists>h'. nm_list_storage_remove h s slice = Some h' \<and>
           storages h' = storages h \<and> vals h' = vals h \<and>
           length (lists h') = length (lists h) \<and>
           deref (lists h') (rows st) =
             Some (fst (list_remove_recursive l (coords slice) (offset st) (lengths slice) 0 (dim st))) \<and>
           (\<forall>a. a \<noteq> rows st \<longrightarrow> deref (lists h') a = deref (lists h) a) \<and>
           (\<forall>l'. deref (lists h') (rows st) = Some l' \<longrightarrow>
              (\<forall>n\<in>set l. \<not> node_is_within_slice n (offset st ! 0 + coords slice ! 0) (lengths slice ! 0)
                 \<longrightarrow> n \<in> set l'))"
proof -
  have lt: "rows st < length (lists h)"
    using assms(2) by (rule deref_Some_less)
  show ?thesis
    using assms lt
    by (simp add: nm_list_storage_remove_def deref_store set_remove_recursive_outside)
qed

theorem remove_keeps_rows_object_witness:
  "deref (storages h_s4) 0 = Some st_s4 \<and> deref (lists h_s4) (rows st_s4) = Some rows_s4 \<and>
   (\<exists>h'. nm_list_storage_remove h_s4 0 sl_s4 = Some h' \<and> storages h' = storages h_s4 \<and>
      deref (lists h') (rows st_s4) = Some [])"
proof -
  have a: "deref (storages h_s4) 0 = Some st_s4"
    by (simp add: h_s4_def deref_def)
  have b: "deref (lists h_s4) (rows st_s4) = Some rows_s4"
    by (simp add: h_s4_def deref_def st_s4_def)
  from remove_keeps_rows_object [OF a b, of sl_s4] obtain h' where
    "nm_list_storage_remove h_s4 0 sl_s4 = Some h'" "storages h' = storages h_s4"
    "deref (lists h') (rows st_s4) =
       Some (fst (list_remove_recursive rows_s4 (coords sl_s4) (offset st_s4) (lengths sl_s4) 0 (dim st_s4)))"
    by blast
  then show ?thesis
    using a b by (simp add: sl_s4_def st_s4_def remove_recursive_s4)
qed

text \<open>
  The defect behind claim C1. \<open>set\<close> compares \<open>s->dtype\<close> bytes of the converted scalar
  and of the default value, where every other place of the file takes
  \<open>DTYPE_SIZES[s->dtype]\<close> bytes. For the dtype with enumerator value 0 no byte is
  compared, so every scalar counts as the default: assigning 9 to element 1 of a byte
  vector with default 0 stores nothing and removes the 5 that was there, and the element
  then reads as 0.
\<close>

theorem set_compares_dtype_bytes:
  "nm_list_storage_set (\<lambda>v. [v]) h_byte 0 sl_1 (Converts 9)
     = Some (h_byte\<lparr> lists := [Some []] \<rparr>, None) \<and>
   nm_list_storage_get (h_byte\<lparr> lists := [Some []] \<rparr>) 0 sl_1
     = Some (Elem 0, h_byte\<lparr> lists := [Some []] \<rparr>)"
  by (simp add: nm_list_storage_set_def nm_list_storage_get_def h_byte_def st_byte_def sl_1_def
      deref_def store_def memcmp_eq_def list_remove_recursive.simps node_is_within_slice_def
      list_storage_get_single_node_def get_single_node_loop.simps)

section \<open>Slice copy\<close>

text \<open>
  The defect behind claim C2. \<open>slice_copy\<close> tests the pointer that the recursive call
  returns, which is never \<open>NULL\<close>, so a child sublist is attached whether or not it has a
  node. The copy of the columns 1 and 2 of row 0 of a 2 x 3 storage whose only element
  is \<open>(0,0)\<close> has a row 0 that owns an empty sublist.
\<close>

theorem get_attaches_empty_sublist:
  "\<exists>h'. nm_list_storage_get h_23 0 sl_12 = Some (Storage 1, h') \<and>
         map_option rows (deref (storages h') 1) = Some 2 \<and>
         deref (lists h') 2 = Some [(0, Sublist [])]"
  by (simp add: nm_list_storage_get_def h_23_def st_23_def sl_12_def deref_def store_def alloc_def
      nm_list_storage_create_def slice_copy.simps list_create_def list_insert_copy_def Let_def)

section \<open>Equality\<close>

lemma size_sub_le [simp]: "b \<le> a \<Longrightarrow> size_sub a b = a - b"
  by (simp add: size_sub_def)






section \<open>Merged map\<close>

lemma list_all_list_insert:
  "list_all P l \<Longrightarrow> P (k, v) \<Longrightarrow> list_all P (fst (list_insert l replace k v))"
  by (induction l) (auto split: prod.split)

lemma list_all_list_insert_after:
  "list_all P l \<Longrightarrow> P (k, v) \<Longrightarrow> list_all P (fst (list_insert_after l i k v))"
  by (auto simp: list_insert_after_def list_all_iff dest: in_set_takeD in_set_dropD)

lemma list_all_list_insert_helper:
  assumes "list_all P l" and "P (k, v)"
  shows "list_all P (fst (list_insert_helper l xcur k v))"
proof (cases xcur)
  case None
  then show ?thesis
    using list_all_list_insert [OF assms, of False]
    by (cases "list_insert l False k v") (simp add: list_insert_helper_def)
next
  case (Some i)
  then show ?thesis
    using list_all_list_insert_after [OF assms, of i]
    by (cases "list_insert_after l i k v") (simp add: list_insert_helper_def)
qed

lemma while_node_invariant:
  "(\<And>n st. I st \<Longrightarrow> I (body n st)) \<Longrightarrow> I st \<Longrightarrow> I (while_node off shp body cur st)"
  by (induction off shp body cur st rule: while_node.induct) auto

lemma while_merged_invariant:
  "(\<And>n st. I st \<Longrightarrow> I (left_only n st)) \<Longrightarrow>
   (\<And>n st. I st \<Longrightarrow> I (right_only n st)) \<Longrightarrow>
   (\<And>n m st. I st \<Longrightarrow> I (both n m st)) \<Longrightarrow>
   I st \<Longrightarrow> I (while_merged loff roff shp left_only right_only both lcur rcur st)"
proof (induction loff roff shp left_only right_only both lcur rcur st rule: while_merged.induct)
  case (1 loff roff shp left_only right_only both lcur rcur st)
  show ?case
    by (subst while_merged.simps) (use 1 in auto)
qed

lemma pruned_insert_leaf:
  "pruned stored 0 x \<Longrightarrow> stored v \<Longrightarrow>
   pruned stored 0 (fst (list_insert_helper x xcur k (Scalar v)))"
  by (simp add: list_all_list_insert_helper)

lemma pruned_insert_sublist:
  "pruned stored (Suc rec) x \<Longrightarrow> sub \<noteq> [] \<Longrightarrow> pruned stored rec sub \<Longrightarrow>
   pruned stored (Suc rec) (fst (list_insert_helper x xcur k (Sublist sub)))"
  by (simp add: list_all_list_insert_helper)

lemma pruned_Nil [simp]: "pruned stored rec []"
  by (cases rec) simp_all

lemma map_empty_stored_r_pruned:
  "pruned (\<lambda>v. ne v (init_obj result)) rec x \<Longrightarrow>
   pruned (\<lambda>v. ne v (init_obj result)) rec (map_empty_stored_r f ne result s x l rec rev' t_init)"
proof (induction rec arbitrary: x l)
  case 0
  show ?case
    unfolding map_empty_stored_r.simps
    by (rule while_node_invariant [where I = "\<lambda>st. pruned (\<lambda>v. ne v (init_obj result)) 0 (fst st)"])
       (use 0 in \<open>auto simp: Let_def pruned_insert_leaf simp del: pruned.simps\<close>)
next
  case (Suc rec)
  show ?case
    unfolding map_empty_stored_r.simps
    by (rule while_node_invariant [where I = "\<lambda>st. pruned (\<lambda>v. ne v (init_obj result)) (Suc rec) (fst st)"])
       (use Suc in \<open>auto simp: Let_def list_create_def pruned_insert_sublist simp del: pruned.simps\<close>)
qed

lemma map_merged_stored_r_pruned:
  "pruned (\<lambda>v. ne v (init_obj result)) rec x \<Longrightarrow>
   pruned (\<lambda>v. ne v (init_obj result)) rec (map_merged_stored_r f ne result left right x l r rec)"
proof (induction rec arbitrary: x l r)
  case 0
  show ?case
    unfolding map_merged_stored_r.simps
    by (rule while_merged_invariant [where I = "\<lambda>st. pruned (\<lambda>v. ne v (init_obj result)) 0 (fst st)"])
       (use 0 in \<open>auto simp: Let_def pruned_insert_leaf simp del: pruned.simps\<close>)
next
  case (Suc rec)
  show ?case
    unfolding map_merged_stored_r.simps
    by (rule while_merged_invariant [where I = "\<lambda>st. pruned (\<lambda>v. ne v (init_obj result)) (Suc rec) (fst st)"])
       (use Suc in \<open>auto simp: Let_def list_create_def pruned_insert_sublist map_empty_stored_r_pruned simp del: pruned.simps\<close>)
qed


text \<open>
  Claim C6. The rows that \<open>map_merged_stored_r\<close> and \<open>map_empty_stored_r\<close> build in a
  new list satisfy both invariants at every depth: every leaf holds a value \<open>v\<close> of the
  block with \<open>v != default\<close> of the result (the leaf is inserted only then), and every
  node above the leaves owns a sublist that is not empty (the new child list is inserted
  only then). This holds for every block \<open>f\<close>, every \<open>!=\<close>, both inputs and every depth.
\<close>

theorem map_merged_result_pruned:
  "pruned (\<lambda>v. ne v (init_obj result)) rec
     (map_merged_stored_r f ne result left right list_create l r rec) \<and>
   pruned (\<lambda>v. ne v (init_obj result)) rec
     (map_empty_stored_r f ne result s list_create l rec rev' t_init)"
  using map_merged_stored_r_pruned [of ne result rec list_create f left right l r]
        map_empty_stored_r_pruned [of ne result rec list_create f s l rev' t_init]
  by (simp add: list_create_def)

section \<open>Iteration with indices\<close>

lemma indices_Nil [simp]: "indices [] = [[]]"
  by (simp add: indices_def)

lemma indices_Cons:
  "indices (n # ns) = concat (map (\<lambda>i. map ((#) i) (indices ns)) [0..<n])"
  by (simp add: indices_def)

lemma length_indices: "idx \<in> set (indices shp) \<Longrightarrow> length idx = length shp"
  by (induction shp arbitrary: idx) (auto simp: indices_Cons)

lemma set_indices:
  "set (indices shp) = {idx. length idx = length shp \<and> (\<forall>i<length shp. idx ! i < shp ! i)}"
  by (auto simp: indices_def product_lists_set list_all2_conv_all_nth)

lemma distinct_indices: "distinct (indices shp)"
  unfolding indices_def by (rule distinct_product_lists) auto

lemma sorted_blocks:
  assumes "sorted_wrt lex_less xs"
  shows "sorted_wrt (<) js \<Longrightarrow> sorted_wrt lex_less (concat (map (\<lambda>i. map ((#) i) xs) js))"
proof (induction js)
  case Nil
  then show ?case by simp
next
  case (Cons j js)
  have "sorted_wrt lex_less (map ((#) j) xs)"
    using assms by (simp add: sorted_wrt_map lex_less_def [abs_def])
  moreover have "\<forall>x\<in>set (map ((#) j) xs). \<forall>y\<in>set (concat (map (\<lambda>i. map ((#) i) xs) js)).
                   lex_less x y"
    using Cons.prems by (auto simp: lex_less_def)
  ultimately show ?case
    using Cons by (simp add: sorted_wrt_append)
qed

lemma sorted_indices: "sorted_wrt lex_less (indices shp)"
proof (induction shp)
  case Nil
  then show ?case by simp
next
  case (Cons n shp)
  show ?case
    unfolding indices_Cons by (rule sorted_blocks [OF Cons]) (simp add: sorted_wrt_upt)
qed

lemma for_index_fold: "for_index i n body st = fold body [i..<n] st"
proof (induction i n body st rule: for_index.induct)
  case (1 index shp body st)
  show ?case
    by (subst for_index.simps) (use 1 in \<open>simp add: upt_conv_Cons\<close>)
qed

lemma fold_collect:
  assumes "\<And>i out. i \<in> set xs \<Longrightarrow> body i (stack, out) = (stack, out @ F i)"
  shows "fold body xs (stack, out) = (stack, out @ concat (map F xs))"
  using assms by (induction xs arbitrary: out) simp_all

lemma list_find_mem: "list_find l k = Some n \<Longrightarrow> n \<in> set l \<and> key n = k"
  by (induction l) (auto split: if_splits)

lemma dense_loop:
  assumes A: "\<And>j out. A j (stack, out) = (stack, out @ FA j)"
      and B: "\<And>j c out. c \<in> set cur \<Longrightarrow> B j c (stack, out) = (stack, out @ FB j c)"
      and "sorted_wrt (<) (map key cur)"
      and "\<forall>c\<in>set cur. off + i \<le> key c"
  shows "snd (fold (dense_step off A B) [i..<n] (cur, (stack, out))) =
           (stack, out @ concat (map (\<lambda>j. case list_find cur (off + j) of
                                              None \<Rightarrow> FA j | Some c \<Rightarrow> FB j c) [i..<n]))"
  using assms(2-)
proof (induction "n - i" arbitrary: i cur out)
  case 0
  then show ?case by simp
next
  case (Suc d)
  note B' = Suc.prems(1) and srt = Suc.prems(2) and low = Suc.prems(3)
  let ?G = "\<lambda>cur j. case list_find cur (off + j) of None \<Rightarrow> FA j | Some c \<Rightarrow> FB j c"
  have lt: "i < n" using Suc.hyps(2) by simp
  have d: "d = n - Suc i" using Suc.hyps(2) by simp
  have up: "[i..<n] = i # [Suc i..<n]"
    using lt by (simp add: upt_conv_Cons)
  have unroll: "\<And>st. fold (dense_step off A B) [i..<n] st =
                      fold (dense_step off A B) [Suc i..<n] (dense_step off A B i st)"
    by (simp add: up)
  show ?case
  proof (cases cur)
    case Nil
    have step: "dense_step off A B i (cur, (stack, out)) = (cur, (stack, out @ FA i))"
      using Nil by (simp add: dense_step_def A)
    have ih: "snd (fold (dense_step off A B) [Suc i..<n] (cur, (stack, out @ FA i))) =
            (stack, (out @ FA i) @ concat (map (?G cur) [Suc i..<n]))"
      unfolding Nil by (rule Suc.hyps(1) [OF d]) simp_all
    have "concat (map (?G cur) [i..<n]) = FA i @ concat (map (?G cur) [Suc i..<n])"
      unfolding up using Nil by simp
    then show ?thesis
      unfolding unroll step ih by simp
  next
    case (Cons c cs)
    have kc: "off + i \<le> key c" using low Cons by simp
    show ?thesis
    proof (cases "off + i < key c")
      case True
      have "i < size_sub (key c) off"
        using True by (simp add: size_sub_def)
      then have step: "dense_step off A B i (cur, (stack, out)) = (cur, (stack, out @ FA i))"
        using Cons by (simp add: dense_step_def A)
      have ih: "snd (fold (dense_step off A B) [Suc i..<n] (cur, (stack, out @ FA i))) =
            (stack, (out @ FA i) @ concat (map (?G cur) [Suc i..<n]))"
      proof (rule Suc.hyps(1) [OF d])
        show "\<forall>c\<in>set cur. off + Suc i \<le> key c"
          using srt True Cons by auto
      qed (use B' srt in auto)
      have "list_find cur (off + i) = None"
        using True Cons by simp
      then have "concat (map (?G cur) [i..<n]) = FA i @ concat (map (?G cur) [Suc i..<n])"
        unfolding up by simp
      then show ?thesis
        unfolding unroll step ih by simp
    next
      case False
      then have eq: "key c = off + i" using kc by simp
      then have "\<not> i < size_sub (key c) off"
        by (simp add: size_sub_def)
      moreover have "B i c (stack, out) = (stack, out @ FB i c)"
        using Cons by (intro B') simp
      ultimately have step: "dense_step off A B i (cur, (stack, out)) = (cs, (stack, out @ FB i c))"
        using Cons by (simp add: dense_step_def)
      have ih: "snd (fold (dense_step off A B) [Suc i..<n] (cs, (stack, out @ FB i c))) =
            (stack, (out @ FB i c) @ concat (map (?G cs) [Suc i..<n]))"
      proof (rule Suc.hyps(1) [OF d])
        show "\<forall>c'\<in>set cs. off + Suc i \<le> key c'"
          using srt Cons eq by auto
      qed (use B' srt Cons in auto)
      have m: "map (?G cur) [Suc i..<n] = map (?G cs) [Suc i..<n]"
        using Cons eq by (intro map_cong) auto
      have lf: "list_find cur (off + i) = Some c"
        using eq Cons by simp
      have "concat (map (?G cur) [i..<n]) = FB i c @ concat (map (?G cs) [Suc i..<n])"
        unfolding up list.map concat.simps m lf by simp
      then show ?thesis
        unfolding unroll step ih by simp
    qed
  qed
qed

lemma view_shape_simps:
  "view_shape s 0 = [ref_shape s 0]"
  "view_shape s (Suc rec) = ref_shape s (Suc rec) # view_shape s rec"
  by (simp_all add: view_shape_def)

lemma view_offsets_simps:
  "view_offsets s 0 = [rd_offset s 0]"
  "view_offsets s (Suc rec) = rd_offset s (Suc rec) # view_offsets s rec"
  by (simp_all add: view_offsets_def)

lemma sorted_skip_before:
  "sorted_wrt (<) (map key l) \<Longrightarrow> sorted_wrt (<) (map key (skip_before off l))"
  unfolding skip_before_def by (induction l) auto

lemma skip_before_lower:
  "sorted_wrt (<) (map key l) \<Longrightarrow> c \<in> set (skip_before off l) \<Longrightarrow> off \<le> key c"
  unfolding skip_before_def by (induction l) (auto split: if_splits)

lemma set_skip_before: "set (skip_before off l) \<subseteq> set l"
  unfolding skip_before_def by (rule set_dropWhileD [THEN subsetI])

lemma list_find_skip_before:
  "off \<le> k \<Longrightarrow> list_find (skip_before off l) k = list_find l k"
  unfolding skip_before_def by (induction l) auto

lemma null_if_beyond_cases:
  "null_if_beyond off shp l = [] \<or> null_if_beyond off shp l = l"
  by (simp add: null_if_beyond_def split: list.split)

lemma list_find_null_if_beyond:
  assumes "sorted_wrt (<) (map key l)" and "\<forall>c\<in>set l. off \<le> key c" and "j < shp"
  shows "list_find (null_if_beyond off shp l) (off + j) = list_find l (off + j)"
proof (cases l)
  case Nil
  then show ?thesis by simp
next
  case (Cons c cs)
  then show ?thesis
    using assms by (auto simp: null_if_beyond_def)
qed

lemma start_cursor_props:
  assumes "sorted_wrt (<) (map key l)"
  shows "sorted_wrt (<) (map key (start_cursor off shp l))"
    and "\<forall>c\<in>set (start_cursor off shp l). off + 0 \<le> key c"
    and "set (start_cursor off shp l) \<subseteq> set l"
    and "j < shp \<Longrightarrow> list_find (start_cursor off shp l) (off + j) = list_find l (off + j)"
proof -
  let ?sk = "skip_before off l"
  have 1: "sorted_wrt (<) (map key ?sk)" using assms by (rule sorted_skip_before)
  have 2: "\<forall>c\<in>set ?sk. off \<le> key c" using assms skip_before_lower by blast
  show "sorted_wrt (<) (map key (start_cursor off shp l))"
    using 1 null_if_beyond_cases [of off shp ?sk] by (auto simp: start_cursor_def)
  show "\<forall>c\<in>set (start_cursor off shp l). off + 0 \<le> key c"
    using 2 null_if_beyond_cases [of off shp ?sk] by (auto simp: start_cursor_def)
  show "set (start_cursor off shp l) \<subseteq> set l"
    using set_skip_before [of off l] null_if_beyond_cases [of off shp ?sk]
    by (auto simp: start_cursor_def)
  show "j < shp \<Longrightarrow> list_find (start_cursor off shp l) (off + j) = list_find l (off + j)"
    using list_find_null_if_beyond [OF 1 2] list_find_skip_before [of off "off + j" l]
    by (simp add: start_cursor_def)
qed

lemma each_empty_with_indices_r_dense:
  "each_empty_with_indices_r s rec (stack, out) =
     (stack, out @ map (\<lambda>idx. (if dtype (ref s) = RUBYOBJ then Obj (init s) else Obj (init_obj s))
                               # stack @ map Num idx) (indices (view_shape s rec)))"
proof (induction rec arbitrary: stack out)
  case 0
  let ?E = "if dtype (ref s) = RUBYOBJ then Obj (init s) else Obj (init_obj s)"
  have "fold (\<lambda>index stack. rb_ary_pop (rb_yield_splat (rb_ary_push stack (Num index))))
          [0..<ref_shape s 0] (?E # stack, out)
        = (?E # stack, out @ concat (map (\<lambda>i. [?E # stack @ [Num i]]) [0..<ref_shape s 0]))"
    by (rule fold_collect) (simp add: rb_ary_pop_def rb_yield_splat_def rb_ary_push_def)
  then show ?case
    by (simp add: for_index_fold view_shape_simps indices_Cons rb_ary_unshift_def rb_ary_shift_def
        Let_def concat_map_singleton o_def)
next
  case (Suc rec)
  let ?E = "if dtype (ref s) = RUBYOBJ then Obj (init s) else Obj (init_obj s)"
  have "fold (\<lambda>index stack.
                 rb_ary_pop (each_empty_with_indices_r s rec (rb_ary_push stack (Num index))))
          [0..<ref_shape s (Suc rec)] (stack, out)
        = (stack, out @ concat (map (\<lambda>i. map (\<lambda>idx. ?E # (stack @ [Num i]) @ map Num idx)
                                              (indices (view_shape s rec)))
                                 [0..<ref_shape s (Suc rec)]))"
    by (rule fold_collect) (simp add: rb_ary_pop_def rb_ary_push_def Suc)
  then show ?case
    by (simp add: for_index_fold view_shape_simps indices_Cons map_concat o_def)
qed

lemma list_inv_sorted: "list_inv rec l \<Longrightarrow> sorted_wrt (<) (map key l)"
  by (cases rec) simp_all

lemma list_inv_sub:
  "list_inv (Suc rec) l \<Longrightarrow> c \<in> set l \<Longrightarrow> list_inv rec (as_LIST (val c))"
  by (cases "val c") (auto simp: list_all_iff)

lemma each_with_indices_r_dense:
  assumes "list_inv rec l" and "init_obj s = init s"
  shows "each_with_indices_r s l rec (stack, out) =
     (stack, out @ map (\<lambda>idx. Obj (elem (init s) (find_path l (map2 (+) (view_offsets s rec) idx)))
                               # stack @ map Num idx) (indices (view_shape s rec)))"
  using assms(1)
proof (induction rec arbitrary: l stack out)
  case 0
  let ?off = "rd_offset s 0" and ?shp = "ref_shape s 0"
  let ?cur = "start_cursor ?off ?shp l"
  let ?A = "\<lambda>index stack. rb_ary_pop (rb_ary_shift (rb_yield_splat
              (rb_ary_unshift (rb_ary_push stack (Num index))
                 (if dtype (ref s) = RUBYOBJ then Obj (init s) else Obj (init_obj s)))))"
  let ?B = "\<lambda>index c stack. rb_ary_pop (rb_ary_shift (rb_yield_splat
              (rb_ary_unshift (rb_ary_push stack (Num index)) (Obj (as_scalar (val c))))))"
  let ?FA = "\<lambda>j. [Obj (init s) # stack @ [Num j]]"
  let ?FB = "\<lambda>j c. [Obj (as_scalar (val c)) # stack @ [Num j]]"
  have srt: "sorted_wrt (<) (map key l)" using 0 by simp
  have body: "(\<lambda>index (cur, stack).
          (let stack = rb_ary_push stack (Num index) in
           if cur = [] \<or> index < size_sub (key (hd cur)) ?off then
             (let stack = rb_ary_unshift stack
                            (if dtype (ref s) = RUBYOBJ then Obj (init s) else Obj (init_obj s))
              in (cur, rb_ary_pop (rb_ary_shift (rb_yield_splat stack))))
           else
             (let stack = rb_ary_unshift stack (Obj (as_scalar (val (hd cur))));
                  cur = tl cur
              in (cur, rb_ary_pop (rb_ary_shift (rb_yield_splat stack))))))
        = dense_step ?off ?A ?B"
    by (auto simp: fun_eq_iff dense_step_def Let_def)
  have loop: "snd (fold (dense_step ?off ?A ?B) [0..<?shp] (?cur, (stack, out))) =
           (stack, out @ concat (map (\<lambda>j. case list_find ?cur (?off + j) of
                                              None \<Rightarrow> ?FA j | Some c \<Rightarrow> ?FB j c) [0..<?shp]))"
    using start_cursor_props(1,2) [OF srt, of ?off ?shp]
    by (intro dense_loop)
       (simp_all add: rb_ary_pop_def rb_ary_shift_def rb_yield_splat_def rb_ary_unshift_def
          rb_ary_push_def assms(2))
  have me: "map (\<lambda>j. case list_find ?cur (?off + j) of None \<Rightarrow> ?FA j | Some c \<Rightarrow> ?FB j c) [0..<?shp]
        = map (\<lambda>j. [Obj (elem (init s) (find_path l [?off + j])) # stack @ [Num j]]) [0..<?shp]"
    using start_cursor_props(4) [OF srt, of _ ?shp ?off]
    by (intro map_cong) (auto simp: elem_def split: option.split)
  show ?case
    unfolding each_with_indices_r.simps body for_index_fold start_cursor_def [symmetric] loop me
    by (simp add: view_shape_simps view_offsets_simps indices_Cons o_def concat_map_singleton)
next
  case (Suc rec)
  let ?off = "rd_offset s (Suc rec)" and ?shp = "ref_shape s (Suc rec)"
  let ?cur = "start_cursor ?off ?shp l"
  let ?E = "if dtype (ref s) = RUBYOBJ then Obj (init s) else Obj (init_obj s)"
  let ?A = "\<lambda>index stack. rb_ary_pop (each_empty_with_indices_r s rec (rb_ary_push stack (Num index)))"
  let ?B = "\<lambda>index c stack. rb_ary_pop (each_with_indices_r s (as_LIST (val c)) rec
                                           (rb_ary_push stack (Num index)))"
  let ?FA = "\<lambda>j. map (\<lambda>idx. Obj (init s) # (stack @ [Num j]) @ map Num idx)
                    (indices (view_shape s rec))"
  let ?FB = "\<lambda>j c. map (\<lambda>idx. Obj (elem (init s) (find_path (as_LIST (val c))
                                   (map2 (+) (view_offsets s rec) idx)))
                                # (stack @ [Num j]) @ map Num idx) (indices (view_shape s rec))"
  have srt: "sorted_wrt (<) (map key l)" using Suc.prems by simp
  have body: "(\<lambda>index (cur, stack).
          (let stack = rb_ary_push stack (Num index) in
           if cur = [] \<or> index < size_sub (key (hd cur)) ?off then
             (cur, rb_ary_pop (each_empty_with_indices_r s rec stack))
           else
             (let stack = each_with_indices_r s (as_LIST (val (hd cur))) rec stack;
                  cur = tl cur
              in (cur, rb_ary_pop stack))))
        = dense_step ?off ?A ?B"
    by (auto simp: fun_eq_iff dense_step_def Let_def)
  have sub: "\<And>c. c \<in> set ?cur \<Longrightarrow> list_inv rec (as_LIST (val c))"
    using start_cursor_props(3) [OF srt, of ?off ?shp] list_inv_sub [OF Suc.prems] by blast
  have loop: "snd (fold (dense_step ?off ?A ?B) [0..<?shp] (?cur, (stack, out))) =
           (stack, out @ concat (map (\<lambda>j. case list_find ?cur (?off + j) of
                                              None \<Rightarrow> ?FA j | Some c \<Rightarrow> ?FB j c) [0..<?shp]))"
    using start_cursor_props(1,2) [OF srt, of ?off ?shp]
    by (intro dense_loop)
       (simp_all add: rb_ary_pop_def rb_ary_push_def each_empty_with_indices_r_dense assms(2)
          Suc.IH sub)
  have ne: "\<And>idx. idx \<in> set (indices (view_shape s rec)) \<Longrightarrow>
              map2 (+) (view_offsets s rec) idx \<noteq> []"
    using length_indices by (fastforce simp: view_shape_def view_offsets_def)
  have me: "map (\<lambda>j. case list_find ?cur (?off + j) of None \<Rightarrow> ?FA j | Some c \<Rightarrow> ?FB j c) [0..<?shp]
        = map (\<lambda>j. map (\<lambda>idx. Obj (elem (init s)
                          (find_path l ((?off + j) # map2 (+) (view_offsets s rec) idx)))
                        # stack @ Num j # map Num idx) (indices (view_shape s rec))) [0..<?shp]"
    using start_cursor_props(4) [OF srt, of _ ?shp ?off] ne
    by (intro map_cong) (auto simp: elem_def split: option.split)
  show ?case
    unfolding each_with_indices_r.simps body for_index_fold start_cursor_def [symmetric] loop me
    by (simp add: view_shape_simps view_offsets_simps indices_Cons o_def map_concat)
qed

lemma get_single_node_loop_find_path:
  "r < dim st \<Longrightarrow>
   get_single_node_loop st slice r (p :: 'v VAL) n0 =
     find_path (as_LIST p) (map (\<lambda>a. offset st ! a + coords slice ! a) [r..<dim st])"
proof (induction "dim st - r" arbitrary: r p n0)
  case 0
  then show ?case by simp
next
  case (Suc d)
  let ?k = "\<lambda>a. offset st ! a + coords slice ! a"
  have up: "map ?k [r..<dim st] = ?k r # map ?k [Suc r..<dim st]"
    using Suc.prems by (simp add: upt_conv_Cons)
  have unf: "get_single_node_loop st slice r p n0 =
      (case list_find (as_LIST p) (?k r) of
         Some n' \<Rightarrow> get_single_node_loop st slice (Suc r) (val n') (Some n')
       | None \<Rightarrow> None)"
    using Suc.prems by (subst get_single_node_loop.simps) simp
  show ?case
  proof (cases "Suc r < dim st")
    case True
    have d: "d = dim st - Suc r" using Suc.hyps(2) by simp
    have ne: "map ?k [Suc r..<dim st] \<noteq> []"
      using True by simp
    have ih: "\<And>n' :: 'v NODE. get_single_node_loop st slice (Suc r) (val n') (Some n') =
                 find_path (as_LIST (val n')) (map ?k [Suc r..<dim st])"
      using Suc.hyps(1) [OF d True] by blast
    show ?thesis
      unfolding unf up find_path.simps ih using ne by (simp split: option.split)
  next
    case False
    then have e: "map ?k [Suc r..<dim st] = []" by simp
    have stop: "\<And>n' :: 'v NODE. get_single_node_loop st slice (Suc r) (val n') (Some n') = Some n'"
      using False by (subst get_single_node_loop.simps) simp
    show ?thesis
      unfolding unf up find_path.simps stop e by (simp split: option.split)
  qed
qed

lemma rev_index_map:
  "length xs = n \<Longrightarrow> map (\<lambda>r. xs ! (n - r - 1)) (rev [0..<n]) = xs"
  by (auto simp: list_eq_iff_nth_eq rev_nth)

lemma map2_nth:
  "length xs = n \<Longrightarrow> length ys = n \<Longrightarrow> map (\<lambda>a. xs ! a + ys ! a) [0..<n] = map2 (+) xs ys"
  by (auto simp: list_eq_iff_nth_eq)

lemma RecurseData_new_valid:
  assumes "deref (storages h) a = Some st" "deref (storages h) (src st) = Some sr"
    "deref (lists h) (rows st) = Some l" "deref (vals h) (default_val st) = Some d"
    "length (offset st) = dim st"
    "src st = a \<Longrightarrow> offset st = replicate (dim st) 0"
    "src sr = src st" "rows sr = rows st"
  shows "RecurseData_new h a None =
           Some \<lparr> ref = st, actual = sr, offsets = offset st, init = d, init_obj = d,
                  top_level_list = l \<rparr>"
proof -
  have z: "map (\<lambda>i. replicate (dim st) 0 ! i + offset st ! i) [0..<dim st] = offset st"
    using assms(5) by (auto simp: list_eq_iff_nth_eq)
  have w: "walk_src (storages h) (dim st) a (replicate (dim st) 0) = Some (src st, offset st)"
  proof (cases "src st = a")
    case True
    then show ?thesis
      using assms(1,6) by (subst walk_src.simps) simp
  next
    case False
    have "walk_src (storages h) (dim st) (src st) (offset st) = Some (src st, offset st)"
      using assms(2,7) by (subst walk_src.simps) simp
    then show ?thesis
      using False assms(1) by (subst walk_src.simps) (simp add: z)
  qed
  show ?thesis
    using assms w by (simp add: RecurseData_new_def)
qed

text \<open>
  Claim C7. For a valid storage (owner or view) the dense iteration calls the block once
  for every index tuple of the shape of the handle, in the order of \<open>indices\<close>, with
  the arguments \<open>(value, i_0, ..., i_{dim-1})\<close>, where the value is the element that
  \<open>ref\<close> returns for the single slice at that tuple: the stored value when the walk finds
  a node, the default of the handle otherwise. \<open>indices\<close> of the shape holds exactly the
  tuples within the shape, each once, in strictly increasing lexicographic order. An
  instance is the vector of length 3 with default 5 and \<open>(1) = 9\<close>: the calls are
  \<open>(5,0), (9,1), (5,2)\<close>.
\<close>

theorem each_with_indices_dense:
  assumes "valid_storage h a" and "deref (storages h) a = Some st"
  shows "nm_list_each_with_indices h a False =
           Some (map (\<lambda>idx. Obj (the (element h a idx)) # map Num idx) (indices (shape st))) \<and>
         list_all (\<lambda>idx. element h a idx \<noteq> None) (indices (shape st)) \<and>
         set (indices (shape st)) =
           {idx. length idx = dim st \<and> (\<forall>i<dim st. idx ! i < shape st ! i)} \<and>
         distinct (indices (shape st)) \<and> sorted_wrt lex_less (indices (shape st))"
proof -
  have v0: "1 \<le> dim st \<and> length (shape st) = dim st \<and> length (offset st) = dim st \<and>
          (if src st = a then offset st = replicate (dim st) 0 else True) \<and>
          deref (vals h) (default_val st) \<noteq> None \<and>
          (case deref (storages h) (src st) of
             None \<Rightarrow> False
           | Some sr \<Rightarrow>
               src sr = src st \<and> rows sr = rows st \<and>
               (case deref (lists h) (rows st) of
                  None \<Rightarrow> False
                | Some l \<Rightarrow> list_inv (dim st - 1) l))"
    using assms by (simp add: valid_storage_def)
  then obtain d where vd: "deref (vals h) (default_val st) = Some d"
    by blast
  from v0 obtain sr where vsr: "deref (storages h) (src st) = Some sr"
    by (cases "deref (storages h) (src st)") simp_all
  from v0 vsr obtain l where vl: "deref (lists h) (rows st) = Some l"
    by (cases "deref (lists h) (rows st)") simp_all
  have v8: "src st = a \<Longrightarrow> offset st = replicate (dim st) 0"
    using v0 by (cases "src st = a") simp_all
  have v9: "src sr = src st" "rows sr = rows st" "list_inv (dim st - 1) l"
    using v0 by (simp_all add: vsr vl)
  have v5: "1 \<le> dim st" "length (shape st) = dim st" "length (offset st) = dim st"
    using v0 by simp_all
  note v = assms(2) vsr vl vd v5 v8 v9
  let ?s = "\<lparr> ref = st, actual = sr, offsets = offset st, init = d, init_obj = d,
              top_level_list = l \<rparr>"
  have rd: "RecurseData_new h a None = Some ?s"
    by (rule RecurseData_new_valid [OF assms(2) vsr vl vd v5(3) v8 v9(1) v9(2)])
  have suc: "Suc (dim st - 1) = dim st" using v(5) by simp
  have vs: "view_shape ?s (dim st - 1) = shape st"
    unfolding view_shape_def suc using rev_index_map [OF v(6)] by (simp add: ref_shape_def [abs_def])
  have vo: "view_offsets ?s (dim st - 1) = offset st"
    unfolding view_offsets_def suc using rev_index_map [OF v(7)] by (simp add: rd_offset_def [abs_def])
  have each: "nm_list_each_with_indices h a False =
     Some (map (\<lambda>idx. Obj (elem d (find_path l (map2 (+) (offset st) idx))) # map Num idx)
             (indices (shape st)))"
    using each_with_indices_r_dense [of "dim st - 1" l ?s "[]" "[]"] v(11)
    by (simp add: nm_list_each_with_indices_def rd vs vo del: One_nat_def)
  have el: "element h a idx = Some (elem d (find_path l (map2 (+) (offset st) idx)))"
    if "idx \<in> set (indices (shape st))" for idx
  proof -
    have len: "length idx = dim st"
      using length_indices [OF that] v(6) by simp
    have "get_single_node_loop st (point idx) 0 (Sublist l) None =
            find_path l (map2 (+) (offset st) idx)"
      using get_single_node_loop_find_path [of 0 st "point idx" "Sublist l" None] v(5)
        map2_nth [OF v(7) len]
      by (simp add: point_def)
    then show ?thesis
      using v(1,3,4)
      by (simp add: element_def nm_list_storage_ref_def list_storage_get_single_node_def
          point_def elem_def split: option.split)
  qed
  have "set (indices (shape st)) =
          {idx. length idx = dim st \<and> (\<forall>i<dim st. idx ! i < shape st ! i)}"
    using set_indices [of "shape st"] v(6) by simp
  then show ?thesis
    using each el distinct_indices [of "shape st"] sorted_indices [of "shape st"]
    by (simp add: list_all_iff cong: map_cong)
qed

theorem each_with_indices_dense_witness:
  "valid_storage h_s6 0 \<and> deref (storages h_s6) 0 = Some st_s6 \<and>
   nm_list_each_with_indices h_s6 0 False =
     Some [[Obj 5, Num 0], [Obj 9, Num 1], [Obj 5, Num 2]]"
proof -
  have v: "valid_storage h_s6 0"
    by (simp add: valid_storage_def h_s6_def st_s6_def deref_def)
  have d: "deref (storages h_s6) 0 = Some st_s6"
    by (simp add: h_s6_def deref_def)
  have i: "indices (shape st_s6) = [[0], [1], [2]]"
    by (simp add: st_s6_def indices_Cons upt_rec numeral_3_eq_3)
  have e: "element h_s6 0 [0] = Some 5" "element h_s6 0 [Suc 0] = Some 9" "element h_s6 0 [2] = Some 5"
    by (simp_all add: element_def point_def nm_list_storage_ref_def h_s6_def st_s6_def deref_def
        list_storage_get_single_node_def get_single_node_loop.simps)
  show ?thesis
    using each_with_indices_dense [OF v d] v d by (simp add: i e)
qed

section \<open>Copy\<close>



























section \<open>Valid storages\<close>

lemma list_inv_Nil [simp]: "list_inv rec []"
  by (cases rec) simp_all

text \<open>A storage made by \<open>nm_list_storage_create\<close> is valid: it owns its rows, which are
  the empty list.\<close>

lemma create_valid:
  assumes "deref (vals h) iv \<noteq> None" and "1 \<le> dm" and "length shp = dm"
  shows "valid_storage (snd (nm_list_storage_create h dt shp dm iv))
           (fst (nm_list_storage_create h dt shp dm iv))"
  using assms
  by (simp add: valid_storage_def nm_list_storage_create_def alloc_def list_create_def Let_def
      deref_append)

text \<open>A view made by \<open>nm_list_storage_ref\<close> of a valid storage is valid: it takes the
  source and the rows of the storage it was taken from.\<close>

lemma ref_valid:
  assumes "valid_storage h s" and "\<not> single slice"
      and "nm_list_storage_ref h s slice = Some (Storage ns, h')"
  shows "valid_storage h' ns"
proof -
  obtain st where st: "deref (storages h) s = Some st"
    using assms(1) by (cases "deref (storages h) s") (simp_all add: valid_storage_def)
  have v0: "1 \<le> dim st \<and> length (shape st) = dim st \<and> length (offset st) = dim st \<and>
          deref (vals h) (default_val st) \<noteq> None \<and>
          (case deref (storages h) (src st) of
             None \<Rightarrow> False
           | Some sr \<Rightarrow>
               src sr = src st \<and> rows sr = rows st \<and>
               (case deref (lists h) (rows st) of
                  None \<Rightarrow> False
                | Some l \<Rightarrow> list_inv (dim st - 1) l))"
    using assms(1) st by (simp add: valid_storage_def)
  then obtain sr where sr: "deref (storages h) (src st) = Some sr"
    by (cases "deref (storages h) (src st)") simp_all
  from v0 sr obtain l where l: "deref (lists h) (rows st) = Some l"
    by (cases "deref (lists h) (rows st)") simp_all
  have lt: "src st < length (storages h)"
    using sr by (rule deref_Some_less)
  have r: "ns = length (storages h)"
    "h' = h\<lparr> storages := store (storages h) (src st) (sr\<lparr> count := count sr + 1 \<rparr>) @
              [Some \<lparr> dtype = dtype st, dim = dim st,
                      shape = map (\<lambda>i. lengths slice ! i) [0..<dim st],
                      offset = map (\<lambda>i. coords slice ! i + offset st ! i) [0..<dim st],
                      count = undefined, src = src st, rows = rows st,
                      default_val = default_val st \<rparr>] \<rparr>"
    using assms(2,3) st sr by (simp_all add: nm_list_storage_ref_def Let_def)
  show ?thesis
    using v0 sr l lt unfolding r
    by (simp add: valid_storage_def deref_append deref_store)
qed

end
